theory Spec2Isabelle
  imports Main "HOL-Library.Word"
begin

section \<open>Steps and their builders\<close>

text \<open>
  Go's \<open>any\<close> values that can sit behind \<open>genericStep.Value\<close>: the encoder stores
  \<open>string\<close> and \<open>int64\<close>; a decoder with \<open>UseNumber\<close> stores \<open>string\<close>,
  \<open>json.Number\<close> (the literal text), \<open>bool\<close>, \<open>[]interface {}\<close>,
  \<open>map[string]interface {}\<close> and, nested inside the last two, \<open>nil\<close>.
\<close>

datatype anyv =
    AString string
  | AInt64 "64 word"
  | ANumber string
  | ABool bool
  | ASlice "anyv list"
  | AMap "(string \<times> anyv) list"
  | ANil

text \<open>What \<open>%T\<close> prints for such a value.\<close>

fun typeName :: "anyv \<Rightarrow> string" where
  "typeName (AString _) = ''string''"
| "typeName (AInt64 _) = ''int64''"
| "typeName (ANumber _) = ''json.Number''"
| "typeName (ABool _) = ''bool''"
| "typeName (ASlice _) = ''[]interface {}''"
| "typeName (AMap _) = ''map[string]interface {}''"
| "typeName ANil = ''<nil>''"

text \<open>
  \<open>type genericStep struct { Kind string; Value *any }\<close>: a nil pointer is \<open>None\<close>.
\<close>

record genericStep =
  Kind :: string
  Value :: "anyv option"

text \<open>
  The \<open>Step\<close> interface with its six implementations. An interface value can also be
  nil or hold a type of another package that embeds \<open>Step\<close>; \<open>OtherStep\<close> stands for
  those and carries what \<open>%T\<close> prints for it.
\<close>

datatype Step =
    BodyStep
  | HeaderStep string
  | URLParamStep string
  | ArrayIndexStep "64 word"
  | ObjectPropertyStep string
  | StringIndexStep "64 word"
  | OtherStep string

type_synonym Steps = "Step list"

definition AddStep :: "Steps \<Rightarrow> Step \<Rightarrow> Steps" where
  "AddStep steps step = steps @ [step]"

definition BodyPath :: "Steps" where
  "BodyPath = [BodyStep]"

definition HeaderPath :: "string \<Rightarrow> Steps" where
  "HeaderPath header = [HeaderStep header]"

definition URLParamPath :: "string \<Rightarrow> Steps" where
  "URLParamPath param = [URLParamStep param]"

section \<open>Errors\<close>

datatype strconv_error = ErrSyntax | ErrRange

text \<open>
  \<open>SyntaxError\<close>: the scanner rejected the text (or it ended early).
  \<open>UnmarshalTypeError v t\<close>: JSON value of kind \<open>v\<close> cannot be stored in Go type \<open>t\<close>.
  \<open>InvalidNumberLiteral\<close>: the encoder met a \<open>json.Number\<close> that is no number literal.
\<close>

datatype json_error =
    SyntaxError
  | UnmarshalTypeError string string
  | InvalidNumberLiteral

text \<open>
  The errors of \<open>UnmarshalJSON\<close> and \<open>MarshalJSON\<close>, one constructor per
  \<open>fmt.Errorf\<close> format:
  \<^item> \<open>JSONError e\<close>: the error of \<open>dec.Decode\<close> or \<open>json.Marshal\<close>, returned as it is;
  \<^item> \<open>NoValue pos\<close>: "error parsing step %d: no value";
  \<^item> \<open>WantedString pos t\<close>: "error parsing step %d: wanted string, got %T";
  \<^item> \<open>WantedNumber pos t\<close>: "error parsing step %d: wanted json.Number, got %T";
  \<^item> \<open>BadInt64 pos s e\<close>: "error parsing step %d: %w" around the \<open>strconv.NumError\<close>
    of \<open>ParseInt\<close> on the literal \<open>s\<close>;
  \<^item> \<open>UnexpectedKind pos kind t\<close>:
    "error parsing step %d: unexpected step kind %q with value type %T";
  \<^item> \<open>UnknownStepType t pos\<close>: "unknown step type %T for step %d".
\<close>

datatype error =
    JSONError json_error
  | NoValue nat
  | WantedString nat string
  | WantedNumber nat string
  | BadInt64 nat string strconv_error
  | UnexpectedKind nat string string
  | UnknownStepType string nat

section \<open>strconv.ParseInt(s, 10, 64)\<close>

definition isDigit :: "char \<Rightarrow> bool" where
  "isDigit c \<longleftrightarrow> (48::nat) \<le> of_char c \<and> of_char c \<le> (57::nat)"

definition digitVal :: "char \<Rightarrow> nat" where
  "digitVal c = of_char c - 48"

text \<open>
  The loop of \<open>ParseUint\<close> in base 10 on \<open>uint64\<close>: \<open>n >= cutoff\<close> with
  \<open>cutoff = maxUint64/10 + 1\<close> is a range error, and so is a sum \<open>n*10 + d\<close> that wraps.
\<close>

fun parseUintLoop :: "nat \<Rightarrow> string \<Rightarrow> strconv_error + nat" where
  "parseUintLoop n [] = Inr n"
| "parseUintLoop n (c # cs) =
     (if \<not> isDigit c then Inl ErrSyntax
      else if n \<ge> 18446744073709551615 div 10 + 1 then Inl ErrRange
      else if n * 10 + digitVal c > 18446744073709551615 then Inl ErrRange
      else parseUintLoop (n * 10 + digitVal c) cs)"

definition ParseUint :: "string \<Rightarrow> strconv_error + nat" where
  "ParseUint s = (if s = [] then Inl ErrSyntax else parseUintLoop 0 s)"

definition ParseInt :: "string \<Rightarrow> strconv_error + 64 word" where
  "ParseInt s =
     (if s = [] then Inl ErrSyntax
      else
        let neg = (hd s = CHR ''-'');
            s1 = (if hd s = CHR ''+'' \<or> hd s = CHR ''-'' then tl s else s)
        in case ParseUint s1 of
             Inl e \<Rightarrow> Inl e
           | Inr un \<Rightarrow>
               if \<not> neg \<and> un \<ge> 9223372036854775808 then Inl ErrRange
               else if neg \<and> un > 9223372036854775808 then Inl ErrRange
               else Inr (if neg then - (word_of_nat un) else word_of_nat un))"

text \<open>\<open>json.Number.Int64\<close> is \<open>strconv.ParseInt(string(n), 10, 64)\<close>.\<close>

definition Int64 :: "string \<Rightarrow> strconv_error + 64 word" where
  "Int64 n = ParseInt n"

section \<open>unicode/utf8\<close>

text \<open>
  \<open>utf8.DecodeRune\<close> returns the rune at the head of a string and the number of its
  bytes, or \<open>(RuneError, 1)\<close> when the head starts no valid encoding (overlong forms,
  surrogates and values beyond U+10FFFF are not valid). \<open>utf8.EncodeRune\<close> gives the
  bytes of a rune.
\<close>

definition RuneError :: nat where
  "RuneError = 0xFFFD"

fun DecodeRune :: "string \<Rightarrow> nat \<times> nat" where
  "DecodeRune [] = (RuneError, 0)"
| "DecodeRune (c0 # cs) =
     (let s0 = (of_char c0 :: nat) in
      if s0 < 0x80 then (s0, 1)
      else if s0 < 0xC2 \<or> 0xF4 < s0 then (RuneError, 1)
      else
        let sz = (if s0 < 0xE0 then 2 else if s0 < 0xF0 then 3 else (4::nat));
            lo = (if s0 = 0xE0 then 0xA0 else if s0 = 0xF0 then 0x90 else (0x80::nat));
            hi = (if s0 = 0xED then 0x9F else if s0 = 0xF4 then 0x8F else (0xBF::nat))
        in if length cs + 1 < sz then (RuneError, 1)
           else
             let s1 = (of_char (cs ! 0) :: nat) in
             if s1 < lo \<or> hi < s1 then (RuneError, 1)
             else if sz \<le> 2 then ((s0 mod 32) * 64 + s1 mod 64, 2)
             else
               let s2 = (of_char (cs ! 1) :: nat) in
               if s2 < 0x80 \<or> 0xBF < s2 then (RuneError, 1)
               else if sz \<le> 3 then ((s0 mod 16) * 4096 + (s1 mod 64) * 64 + s2 mod 64, 3)
               else
                 let s3 = (of_char (cs ! 2) :: nat) in
                 if s3 < 0x80 \<or> 0xBF < s3 then (RuneError, 1)
                 else ((s0 mod 8) * 262144 + (s1 mod 64) * 4096 + (s2 mod 64) * 64
                         + s3 mod 64, 4))"

definition EncodeRune :: "nat \<Rightarrow> string" where
  "EncodeRune r =
     (if r \<le> 0x7F then [char_of r]
      else if r \<le> 0x7FF then [char_of (0xC0 + r div 64), char_of (0x80 + r mod 64)]
      else if r > 0x10FFFF \<or> (0xD800 \<le> r \<and> r \<le> 0xDFFF) then
        [char_of (0xEF::nat), char_of (0xBF::nat), char_of (0xBD::nat)]
      else if r \<le> 0xFFFF then
        [char_of (0xE0 + r div 4096), char_of (0x80 + (r div 64) mod 64),
         char_of (0x80 + r mod 64)]
      else
        [char_of (0xF0 + r div 262144), char_of (0x80 + (r div 4096) mod 64),
         char_of (0x80 + (r div 64) mod 64), char_of (0x80 + r mod 64)])"

section \<open>encoding/json: writing\<close>

text \<open>
  \<open>appendString\<close> with \<open>escapeHTML\<close> set, as \<open>json.Marshal\<close> calls it: the
  bytes between the quotes of a JSON string. ASCII is copied, except the quote, the
  backslash, the control characters and \<open><\<close>, \<open>>\<close>, \<open>&\<close>, which are escaped
  (the short escapes for backspace and form feed are those of Go 1.22 and later; before,
  the two were written with \<open>u00\<close> and two hex digits, which reads back the same). A
  byte that starts no valid UTF-8 encoding is written as the escape for U+FFFD, the
  runes U+2028 and U+2029 as their escapes, every other rune as its bytes.
\<close>

definition hexDigit :: "nat \<Rightarrow> char" where
  "hexDigit n = ''0123456789abcdef'' ! n"

definition htmlSafe :: "nat \<Rightarrow> bool" where
  "htmlSafe b \<longleftrightarrow>
     0x20 \<le> b \<and> b < 0x80 \<and> b \<noteq> 0x22 \<and> b \<noteq> 0x26 \<and> b \<noteq> 0x3C \<and> b \<noteq> 0x3E \<and> b \<noteq> 0x5C"

definition escapeByte :: "char \<Rightarrow> string" where
  \<open>escapeByte c =
     (if c = CHR 0x5C \<or> c = CHR 0x22 then [CHR 0x5C, c]
      else if c = CHR 0x08 then [CHR 0x5C, CHR ''b'']
      else if c = CHR 0x0C then [CHR 0x5C, CHR ''f'']
      else if c = CHR 0x0A then [CHR 0x5C, CHR ''n'']
      else if c = CHR 0x0D then [CHR 0x5C, CHR ''r'']
      else if c = CHR 0x09 then [CHR 0x5C, CHR ''t'']
      else [CHR 0x5C, CHR ''u'', CHR ''0'', CHR ''0'',
            hexDigit (of_char c div 16), hexDigit (of_char c mod 16)])\<close>

fun appendString :: "string \<Rightarrow> string" where
  "appendString [] = []"
| "appendString (c # cs) =
     (if (of_char c :: nat) < 0x80 then
        (if htmlSafe (of_char c) then [c] else escapeByte c) @ appendString cs
      else
        (case DecodeRune (take 4 (c # cs)) of (r, n) \<Rightarrow>
           if r = RuneError \<and> n = 1 then
             [CHR 0x5C, CHR ''u'', CHR ''f'', CHR ''f'', CHR ''f'', CHR ''d''] @ appendString cs
           else if r = 0x2028 \<or> r = 0x2029 then
             [CHR 0x5C, CHR ''u'', CHR ''2'', CHR ''0'', CHR ''2'', hexDigit (r mod 16)]
               @ appendString (drop (n - 1) cs)
           else take n (c # cs) @ appendString (drop (n - 1) cs)))"

definition encodeString :: "string \<Rightarrow> string" where
  "encodeString s = [CHR 0x22] @ appendString s @ [CHR 0x22]"

section \<open>strconv.FormatInt\<close>

text \<open>The decimal text of an \<open>int64\<close>, as the encoder writes an integer.\<close>

definition digitChar :: "nat \<Rightarrow> char" where
  "digitChar d = char_of (48 + d)"

fun formatBits :: "nat \<Rightarrow> string" where
  "formatBits n = (if n < 10 then [digitChar n] else formatBits (n div 10) @ [digitChar (n mod 10)])"

declare formatBits.simps [simp del]

definition FormatInt :: "64 word \<Rightarrow> string" where
  "FormatInt i =
     (if sint i < 0 then CHR ''-'' # formatBits (nat (- sint i)) else formatBits (nat (sint i)))"

section \<open>encoding/json: scanning\<close>

definition isSpace :: "char \<Rightarrow> bool" where
  "isSpace c \<longleftrightarrow> c = CHR '' '' \<or> c = CHR 0x09 \<or> c = CHR 0x0D \<or> c = CHR 0x0A"

definition skipSpace :: "string \<Rightarrow> string" where
  "skipSpace s = dropWhile isSpace s"

definition hexVal :: "char \<Rightarrow> nat option" where
  "hexVal c =
     (let b = (of_char c :: nat) in
      if 48 \<le> b \<and> b \<le> 57 then Some (b - 48)
      else if 97 \<le> b \<and> b \<le> 102 then Some (b - 87)
      else if 65 \<le> b \<and> b \<le> 70 then Some (b - 55)
      else None)"

text \<open>\<open>getu4\<close> on the four characters that follow the backslash and the \<open>u\<close>.\<close>

definition getu4 :: "string \<Rightarrow> nat option" where
  "getu4 s =
     (if length s < 4 then None
      else case (hexVal (s ! 0), hexVal (s ! 1), hexVal (s ! 2), hexVal (s ! 3)) of
             (Some a, Some b, Some c, Some d) \<Rightarrow> Some (((a * 16 + b) * 16 + c) * 16 + d)
           | _ \<Rightarrow> None)"

definition isSurrogate :: "nat \<Rightarrow> bool" where
  "isSurrogate r \<longleftrightarrow> 0xD800 \<le> r \<and> r < 0xE000"

text \<open>\<open>utf16.DecodeRune\<close>: the code point of a surrogate pair, else U+FFFD.\<close>

definition utf16DecodeRune :: "nat \<Rightarrow> nat \<Rightarrow> nat" where
  "utf16DecodeRune r1 r2 =
     (if 0xD800 \<le> r1 \<and> r1 < 0xDC00 \<and> 0xDC00 \<le> r2 \<and> r2 < 0xE000
      then (r1 - 0xD800) * 1024 + (r2 - 0xDC00) + 0x10000
      else RuneError)"

definition prepend :: "string \<Rightarrow> (string \<times> string) option \<Rightarrow> (string \<times> string) option" where
  "prepend out r = (case r of None \<Rightarrow> None | Some (t, rest) \<Rightarrow> Some (out @ t, rest))"

text \<open>
  A string literal from just after its opening quote: the scanner's check and
  \<open>unquote\<close> in one pass. The result is the unquoted text and what follows the closing quote.
\<close>

fun scanString :: "string \<Rightarrow> (string \<times> string) option" where
  "scanString [] = None"
| "scanString (c # cs) =
     (if c = CHR 0x22 then Some ([], cs)
      else if c = CHR 0x5C then
        (case cs of
           [] \<Rightarrow> None
         | e # es \<Rightarrow>
             if e = CHR 0x22 \<or> e = CHR 0x5C \<or> e = CHR ''/'' then prepend [e] (scanString es)
             else if e = CHR ''b'' then prepend [CHR 0x08] (scanString es)
             else if e = CHR ''f'' then prepend [CHR 0x0C] (scanString es)
             else if e = CHR ''n'' then prepend [CHR 0x0A] (scanString es)
             else if e = CHR ''r'' then prepend [CHR 0x0D] (scanString es)
             else if e = CHR ''t'' then prepend [CHR 0x09] (scanString es)
             else if e = CHR ''u'' then
               (case getu4 es of
                  None \<Rightarrow> None
                | Some rr \<Rightarrow>
                    if isSurrogate rr then
                      (case (if take 2 (drop 4 es) = [CHR 0x5C, CHR ''u'']
                             then getu4 (drop 6 es) else None) of
                         None \<Rightarrow> prepend (EncodeRune RuneError) (scanString (drop 4 es))
                       | Some rr1 \<Rightarrow>
                           if utf16DecodeRune rr rr1 \<noteq> RuneError
                           then prepend (EncodeRune (utf16DecodeRune rr rr1))
                                  (scanString (drop 10 es))
                           else prepend (EncodeRune RuneError) (scanString (drop 4 es)))
                    else prepend (EncodeRune rr) (scanString (drop 4 es)))
             else None)
      else if (of_char c :: nat) < 0x20 then None
      else if (of_char c :: nat) < 0x80 then prepend [c] (scanString cs)
      else
        (case DecodeRune (c # cs) of (rr, n) \<Rightarrow>
           prepend (EncodeRune rr) (scanString (drop (n - 1) cs))))"

text \<open>A number literal at the head of the text, taken as far as the grammar goes.\<close>

definition scanExp :: "string \<Rightarrow> string \<Rightarrow> (string \<times> string) option" where
  "scanExp acc s =
     (case s of
        [] \<Rightarrow> Some (acc, s)
      | e # s1 \<Rightarrow>
          if e = CHR ''e'' \<or> e = CHR ''E'' then
            (let sg = (if s1 \<noteq> [] \<and> (hd s1 = CHR ''+'' \<or> hd s1 = CHR ''-'') then [hd s1] else []);
                 s2 = drop (length sg) s1
             in if takeWhile isDigit s2 = [] then None
                else Some (acc @ [e] @ sg @ takeWhile isDigit s2, dropWhile isDigit s2))
          else Some (acc, s))"

definition scanFrac :: "string \<Rightarrow> string \<Rightarrow> (string \<times> string) option" where
  "scanFrac acc s =
     (case s of
        [] \<Rightarrow> Some (acc, s)
      | d # s1 \<Rightarrow>
          if d = CHR ''.'' then
            (if takeWhile isDigit s1 = [] then None
             else scanExp (acc @ [d] @ takeWhile isDigit s1) (dropWhile isDigit s1))
          else scanExp acc s)"

definition scanNumber :: "string \<Rightarrow> (string \<times> string) option" where
  "scanNumber s =
     (let sg = (if s \<noteq> [] \<and> hd s = CHR ''-'' then [hd s] else []);
          s1 = drop (length sg) s
      in case s1 of
           [] \<Rightarrow> None
         | c # cs \<Rightarrow>
             if c = CHR ''0'' then scanFrac (sg @ [c]) cs
             else if isDigit c then
               scanFrac (sg @ [c] @ takeWhile isDigit cs) (dropWhile isDigit cs)
             else None)"

definition isValidNumber :: "string \<Rightarrow> bool" where
  "isValidNumber s \<longleftrightarrow> scanNumber s = Some (s, [])"

datatype json =
    JNull
  | JBool bool
  | JNumber string
  | JString string
  | JArray "json list"
  | JObject "(string \<times> json) list"

definition maxNestingDepth :: nat where
  "maxNestingDepth = 10000"

text \<open>
  The scanner and the decoder's walk over one JSON value, as a recursive descent that
  returns the value read and the text after it; \<open>None\<close> is a syntax error. The first
  argument is the number of nested arrays and objects still allowed: the scanner gives up
  beyond \<open>maxNestingDepth\<close>. \<open>parseElems\<close> reads the elements of an array after its
  \<open>[\<close>, \<open>parseMembers\<close> the members of an object after its \<open>{\<close>. The tests on
  lengths in the last two are there for the termination proof only; they always hold
  (\<open>parseElems_unguarded\<close>, \<open>parseMembers_unguarded\<close>).
\<close>

lemma length_skipSpace: "length (skipSpace s) \<le> length s"
  by (simp add: skipSpace_def length_dropWhile_le)

lemma skipSpace_Cons_length: "skipSpace s = c # cs \<Longrightarrow> length cs < length s"
  using length_skipSpace [of s] by simp

function (sequential) parseValue :: "nat \<Rightarrow> string \<Rightarrow> (json \<times> string) option"
  and parseElems :: "nat \<Rightarrow> string \<Rightarrow> (json list \<times> string) option"
  and parseMembers :: "nat \<Rightarrow> string \<Rightarrow> ((string \<times> json) list \<times> string) option"
where
  "parseValue d s =
     (case skipSpace s of
        [] \<Rightarrow> None
      | c # cs \<Rightarrow>
          if c = CHR ''{'' then
            (if d = 0 then None
             else case skipSpace cs of
                    [] \<Rightarrow> None
                  | c1 # r \<Rightarrow>
                      if c1 = CHR ''}'' then Some (JObject [], r)
                      else (case parseMembers (d - 1) cs of
                              None \<Rightarrow> None
                            | Some (ms, r1) \<Rightarrow> Some (JObject ms, r1)))
          else if c = CHR ''['' then
            (if d = 0 then None
             else case skipSpace cs of
                    [] \<Rightarrow> None
                  | c1 # r \<Rightarrow>
                      if c1 = CHR '']'' then Some (JArray [], r)
                      else (case parseElems (d - 1) cs of
                              None \<Rightarrow> None
                            | Some (vs, r1) \<Rightarrow> Some (JArray vs, r1)))
          else if c = CHR 0x22 then
            (case scanString cs of
               None \<Rightarrow> None
             | Some (t, r) \<Rightarrow> Some (JString t, r))
          else if c = CHR ''-'' \<or> isDigit c then
            (case scanNumber (c # cs) of
               None \<Rightarrow> None
             | Some (t, r) \<Rightarrow> Some (JNumber t, r))
          else if take 4 (c # cs) = ''true'' then Some (JBool True, drop 3 cs)
          else if take 5 (c # cs) = ''false'' then Some (JBool False, drop 4 cs)
          else if take 4 (c # cs) = ''null'' then Some (JNull, drop 3 cs)
          else None)"
| "parseElems d s =
     (case parseValue d s of
        None \<Rightarrow> None
      | Some (v, r) \<Rightarrow>
          if length r < length s then
            (case skipSpace r of
               [] \<Rightarrow> None
             | c # r1 \<Rightarrow>
                 if c = CHR '','' then
                   (case parseElems d r1 of
                      None \<Rightarrow> None
                    | Some (vs, r2) \<Rightarrow> Some (v # vs, r2))
                 else if c = CHR '']'' then Some ([v], r1)
                 else None)
          else None)"
| "parseMembers d s =
     (case skipSpace s of
        [] \<Rightarrow> None
      | q # s1 \<Rightarrow>
          if q = CHR 0x22 then
            (case scanString s1 of
               None \<Rightarrow> None
             | Some (key, s2) \<Rightarrow>
                 if length s2 \<le> length s1 then
                 (case skipSpace s2 of
                    [] \<Rightarrow> None
                  | c # s3 \<Rightarrow>
                      if c = CHR '':'' then
                        (case parseValue d s3 of
                           None \<Rightarrow> None
                         | Some (v, r) \<Rightarrow>
                             if length r < length s3 then
                               (case skipSpace r of
                                  [] \<Rightarrow> None
                                | c1 # r1 \<Rightarrow>
                                    if c1 = CHR '','' then
                                      (case parseMembers d r1 of
                                         None \<Rightarrow> None
                                       | Some (ms, r2) \<Rightarrow> Some ((key, v) # ms, r2))
                                    else if c1 = CHR ''}'' then Some ([(key, v)], r1)
                                    else None)
                             else None)
                      else None)
                 else None)
          else None)"
  by pat_completeness auto

termination
  apply (relation "measure (\<lambda>x. case x of
            Inl (d, s) \<Rightarrow> 2 * length s
          | Inr (Inl (d, s)) \<Rightarrow> 2 * length s + 1
          | Inr (Inr (d, s)) \<Rightarrow> 2 * length s + 1)")
  apply (auto dest!: skipSpace_Cons_length)
  done

declare parseValue.simps [simp del] parseElems.simps [simp del] parseMembers.simps [simp del]

section \<open>encoding/json: storing a parsed value\<close>

fun strLess :: "string \<Rightarrow> string \<Rightarrow> bool" where
  "strLess [] [] = False"
| "strLess [] (b # bs) = True"
| "strLess (a # as) [] = False"
| "strLess (a # as) (b # bs) =
     ((of_char a :: nat) < of_char b \<or> (a = b \<and> strLess as bs))"

text \<open>
  A Go map is kept as an association list with distinct keys in increasing order, the
  order in which \<open>json.Marshal\<close> writes it; \<open>mapStore\<close> is \<open>m[k] = v\<close>.
\<close>

fun mapStore :: "string \<Rightarrow> anyv \<Rightarrow> (string \<times> anyv) list \<Rightarrow> (string \<times> anyv) list" where
  "mapStore k v [] = [(k, v)]"
| "mapStore k v ((k', v') # m) =
     (if k = k' then (k, v) # m
      else if strLess k k' then (k, v) # (k', v') # m
      else (k', v') # mapStore k v m)"

text \<open>\<open>valueInterface\<close> with \<open>UseNumber\<close>: the value stored into an \<open>any\<close>.\<close>

fun valueInterface :: "json \<Rightarrow> anyv" where
  "valueInterface JNull = ANil"
| "valueInterface (JBool b) = ABool b"
| "valueInterface (JNumber n) = ANumber n"
| "valueInterface (JString s) = AString s"
| "valueInterface (JArray vs) = ASlice (map valueInterface vs)"
| "valueInterface (JObject ms) =
     AMap (foldl (\<lambda>m kv. mapStore (fst kv) (snd kv) m) []
             (map (\<lambda>kv. (fst kv, valueInterface (snd kv))) ms))"

fun jsonKind :: "json \<Rightarrow> string" where
  "jsonKind JNull = ''null''"
| "jsonKind (JBool _) = ''bool''"
| "jsonKind (JNumber _) = ''number''"
| "jsonKind (JString _) = ''string''"
| "jsonKind (JArray _) = ''array''"
| "jsonKind (JObject _) = ''object''"

text \<open>
  The folded form of an object key under which struct fields are looked up: ASCII letters
  in upper case, and the two runes that fold to an ASCII letter, U+212A (Kelvin sign) to
  \<open>K\<close> and U+017F (long s) to \<open>S\<close>. No other rune folds to an ASCII one, so no other key
  can meet the field names \<open>kind\<close> and \<open>value\<close>.
\<close>

fun foldName :: "string \<Rightarrow> string" where
  "foldName [] = []"
| "foldName (c # cs) =
     (if 97 \<le> (of_char c :: nat) \<and> (of_char c :: nat) \<le> 122
        then char_of ((of_char c :: nat) - 32) # foldName cs
      else if take 3 (c # cs) = [CHR 0xE2, CHR 0x84, CHR 0xAA] then CHR ''K'' # foldName (drop 2 cs)
      else if take 2 (c # cs) = [CHR 0xC5, CHR 0xBF] then CHR ''S'' # foldName (drop 1 cs)
      else c # foldName cs)"

text \<open>
  The decoder keeps the first type error and goes on (\<open>saveError\<close>); the state of a
  decode is the value built so far and that error.
\<close>

definition saveError :: "json_error option \<Rightarrow> json_error \<Rightarrow> json_error option" where
  "saveError saved err = (case saved of None \<Rightarrow> Some err | Some e \<Rightarrow> Some e)"

text \<open>One member of an object stored into a \<open>genericStep\<close>.\<close>

definition storeMember ::
  "genericStep \<times> json_error option \<Rightarrow> string \<times> json \<Rightarrow> genericStep \<times> json_error option" where
  "storeMember st kv =
     (case st of (g, saved) \<Rightarrow>
        if foldName (fst kv) = ''KIND'' then
          (case snd kv of
             JString s \<Rightarrow> (g\<lparr>Kind := s\<rparr>, saved)
           | JNull \<Rightarrow> (g, saved)
           | v \<Rightarrow> (g, saveError saved (UnmarshalTypeError (jsonKind v) ''string'')))
        else if foldName (fst kv) = ''VALUE'' then
          (case snd kv of
             JNull \<Rightarrow> (g\<lparr>Value := None\<rparr>, saved)
           | v \<Rightarrow> (g\<lparr>Value := Some (valueInterface v)\<rparr>, saved))
        else (g, saved))"

text \<open>One array element stored into a fresh \<open>genericStep\<close>.\<close>

definition storeElem ::
  "genericStep list \<times> json_error option \<Rightarrow> json \<Rightarrow> genericStep list \<times> json_error option" where
  "storeElem st v =
     (case st of (gs, saved) \<Rightarrow>
        (case v of
           JObject ms \<Rightarrow>
             (case foldl storeMember (\<lparr>Kind = [], Value = None\<rparr>, saved) ms of
                (g, saved') \<Rightarrow> (gs @ [g], saved'))
         | JNull \<Rightarrow> (gs @ [\<lparr>Kind = [], Value = None\<rparr>], saved)
         | _ \<Rightarrow>
             (gs @ [\<lparr>Kind = [], Value = None\<rparr>],
              saveError saved (UnmarshalTypeError (jsonKind v) ''apidiags.genericStep''))))"

text \<open>A parsed value stored into \<open>var genSteps []genericStep\<close>.\<close>

definition storeSlice :: "json \<Rightarrow> genericStep list \<times> json_error option" where
  "storeSlice v =
     (case v of
        JArray vs \<Rightarrow> foldl storeElem ([], None) vs
      | JNull \<Rightarrow> ([], None)
      | _ \<Rightarrow> ([], Some (UnmarshalTypeError (jsonKind v) ''[]apidiags.genericStep'')))"

text \<open>
  \<open>dec.Decode(&genSteps)\<close> after \<open>dec.UseNumber()\<close>: the first JSON value of the input
  is scanned, then stored; what follows that value is left in the decoder's buffer.
\<close>

definition Decode :: "string \<Rightarrow> json_error + genericStep list" where
  "Decode inp =
     (case parseValue maxNestingDepth inp of
        None \<Rightarrow> Inl SyntaxError
      | Some (v, rest) \<Rightarrow>
          (case storeSlice v of
             (genSteps, Some err) \<Rightarrow> Inl err
           | (genSteps, None) \<Rightarrow> Inr genSteps))"

section \<open>encoding/json: writing, continued\<close>

definition joinWith :: "string \<Rightarrow> string list \<Rightarrow> string" where
  "joinWith sep xs = (case xs of [] \<Rightarrow> [] | x # r \<Rightarrow> x @ concat (map (\<lambda>y. sep @ y) r))"

text \<open>The encoding of a value held in an \<open>any\<close>; \<open>None\<close> is the encoder's error
  for a \<open>json.Number\<close> that is no number literal.\<close>

fun encodeAny :: "anyv \<Rightarrow> string option" where
  "encodeAny (AString s) = Some (encodeString s)"
| "encodeAny (AInt64 i) = Some (FormatInt i)"
| "encodeAny (ANumber n) =
     (let numStr = (if n = [] then ''0'' else n)
      in if isValidNumber numStr then Some numStr else None)"
| "encodeAny (ABool b) = Some (if b then ''true'' else ''false'')"
| "encodeAny ANil = Some ''null''"
| "encodeAny (ASlice vs) =
     map_option (\<lambda>ts. ''['' @ joinWith '','' ts @ '']'') (those (map encodeAny vs))"
| "encodeAny (AMap m) =
     map_option (\<lambda>ts. ''{'' @ joinWith '','' ts @ ''}'')
       (those (map (\<lambda>kv. map_option (\<lambda>t. encodeString (fst kv) @ '':'' @ t)
                             (encodeAny (snd kv))) m))"

text \<open>A \<open>genericStep\<close>: both fields are \<open>omitempty\<close>.\<close>

definition encodeGenericStep :: "genericStep \<Rightarrow> string option" where
  \<open>encodeGenericStep g =
     (case (case Value g of None \<Rightarrow> Some [] | Some v \<Rightarrow> map_option (\<lambda>t. [''"value":'' @ t]) (encodeAny v)) of
        None \<Rightarrow> None
      | Some vf \<Rightarrow>
          Some (''{'' @ joinWith '',''
                  ((if Kind g = [] then [] else [''"kind":'' @ encodeString (Kind g)]) @ vf)
                @ ''}''))\<close>

text \<open>\<open>json.Marshal\<close> of a non-nil \<open>[]genericStep\<close>.\<close>

definition Marshal :: "genericStep list \<Rightarrow> string option" where
  "Marshal genSteps =
     map_option (\<lambda>ts. ''['' @ joinWith '','' ts @ '']'') (those (map encodeGenericStep genSteps))"

section \<open>The decoding loop of UnmarshalJSON\<close>

text \<open>
  The \<open>switch step.Kind\<close> of the loop body: the step that the record at position
  \<open>pos\<close> stands for, or the error the loop returns there.
\<close>

definition switchKind :: "nat \<Rightarrow> genericStep \<Rightarrow> error + Step" where
  "switchKind pos step =
     (if Kind step = ''body'' then Inr BodyStep
      else if Kind step = ''header'' then
        (case Value step of
           None \<Rightarrow> Inl (NoValue pos)
         | Some (AString header) \<Rightarrow> Inr (HeaderStep header)
         | Some v \<Rightarrow> Inl (WantedString pos (typeName v)))
      else if Kind step = ''url_param'' then
        (case Value step of
           None \<Rightarrow> Inl (NoValue pos)
         | Some (AString param) \<Rightarrow> Inr (URLParamStep param)
         | Some v \<Rightarrow> Inl (WantedString pos (typeName v)))
      else if Kind step = ''array_index'' then
        (case Value step of
           None \<Rightarrow> Inl (NoValue pos)
         | Some (ANumber index) \<Rightarrow>
             (case Int64 index of
                Inl err \<Rightarrow> Inl (BadInt64 pos index err)
              | Inr idx \<Rightarrow> Inr (ArrayIndexStep idx))
         | Some v \<Rightarrow> Inl (WantedNumber pos (typeName v)))
      else if Kind step = ''object_property'' then
        (case Value step of
           None \<Rightarrow> Inl (NoValue pos)
         | Some (AString property) \<Rightarrow> Inr (ObjectPropertyStep property)
         | Some v \<Rightarrow> Inl (WantedString pos (typeName v)))
      else if Kind step = ''string_index'' then
        (case Value step of
           None \<Rightarrow> Inl (NoValue pos)
         | Some (ANumber index) \<Rightarrow>
             (case Int64 index of
                Inl err \<Rightarrow> Inl (BadInt64 pos index err)
              | Inr idx \<Rightarrow> Inr (StringIndexStep idx))
         | Some v \<Rightarrow> Inl (WantedNumber pos (typeName v)))
      else Inl (UnexpectedKind pos (Kind step) ''*interface {}''))"

text \<open>\<open>for pos, step := range genSteps\<close>, with \<open>results\<close> as the accumulator.\<close>

fun unmarshalLoop :: "nat \<Rightarrow> genericStep list \<Rightarrow> Steps \<Rightarrow> error + Steps" where
  "unmarshalLoop pos [] results = Inr results"
| "unmarshalLoop pos (step # rest) results =
     (case switchKind pos step of
        Inl err \<Rightarrow> Inl err
      | Inr s \<Rightarrow> unmarshalLoop (pos + 1) rest (AddStep results s))"

section \<open>The encoding loop of MarshalJSON\<close>

fun marshalLoop :: "nat \<Rightarrow> Steps \<Rightarrow> genericStep list \<Rightarrow> error + genericStep list" where
  "marshalLoop pos [] genSteps = Inr genSteps"
| "marshalLoop pos (step # rest) genSteps =
     (case step of
        BodyStep \<Rightarrow>
          marshalLoop (pos + 1) rest (genSteps @ [\<lparr>Kind = ''body'', Value = None\<rparr>])
      | HeaderStep v \<Rightarrow>
          marshalLoop (pos + 1) rest
            (genSteps @ [\<lparr>Kind = ''header'', Value = Some (AString v)\<rparr>])
      | URLParamStep v \<Rightarrow>
          marshalLoop (pos + 1) rest
            (genSteps @ [\<lparr>Kind = ''url_param'', Value = Some (AString v)\<rparr>])
      | ArrayIndexStep v \<Rightarrow>
          marshalLoop (pos + 1) rest
            (genSteps @ [\<lparr>Kind = ''array_index'', Value = Some (AInt64 v)\<rparr>])
      | ObjectPropertyStep v \<Rightarrow>
          marshalLoop (pos + 1) rest
            (genSteps @ [\<lparr>Kind = ''object_property'', Value = Some (AString v)\<rparr>])
      | StringIndexStep v \<Rightarrow>
          marshalLoop (pos + 1) rest
            (genSteps @ [\<lparr>Kind = ''string_index'', Value = Some (AInt64 v)\<rparr>])
      | OtherStep t \<Rightarrow> Inl (UnknownStepType t pos))"

section \<open>MarshalJSON and UnmarshalJSON\<close>

text \<open>
  \<open>func (steps Steps) MarshalJSON() ([]byte, error)\<close>: the loop, then
  \<open>json.Marshal(genSteps)\<close>.
\<close>

definition MarshalJSON :: "Steps \<Rightarrow> error + string" where
  "MarshalJSON steps =
     (case marshalLoop 0 steps [] of
        Inl err \<Rightarrow> Inl err
      | Inr genSteps \<Rightarrow>
          (case Marshal genSteps of
             None \<Rightarrow> Inl (JSONError InvalidNumberLiteral)
           | Some out \<Rightarrow> Inr out))"

text \<open>
  \<open>func (steps *Steps) UnmarshalJSON(in []byte) error\<close>: the first argument is the
  value behind the receiver before the call, the result is the value behind it after the
  call and the error returned (\<open>None\<close> for \<open>nil\<close>).
\<close>

definition UnmarshalJSON :: "Steps \<Rightarrow> string \<Rightarrow> Steps \<times> error option" where
  "UnmarshalJSON steps inp =
     (case Decode inp of
        Inl err \<Rightarrow> (steps, Some (JSONError err))
      | Inr genSteps \<Rightarrow>
          (case unmarshalLoop 0 genSteps [] of
             Inl err \<Rightarrow> (steps, Some err)
           | Inr results \<Rightarrow> (results, None)))"

section \<open>Pointers (diag.go)\<close>

type_synonym pointerType = string

definition bodyPointer :: pointerType where
  "bodyPointer = ''body''"

definition urlPointer :: pointerType where
  "urlPointer = ''url''"

definition headerPointer :: pointerType where
  "headerPointer = ''header''"

record Pointer =
  Field :: pointerType
  Path :: string

text \<open>\<open>strings.ReplaceAll\<close> for a pattern of one character.\<close>

definition ReplaceAll :: "string \<Rightarrow> char \<Rightarrow> string \<Rightarrow> string" where
  "ReplaceAll s old new = concat (map (\<lambda>c. if c = old then new else [c]) s)"

text \<open>\<open>jsonpointer.Escape\<close> of go-openapi: first \<open>~\<close> to \<open>~0\<close>, then \<open>/\<close> to \<open>~1\<close>.\<close>

definition Escape :: "string \<Rightarrow> string" where
  "Escape token = ReplaceAll (ReplaceAll token (CHR ''~'') ''~0'') (CHR ''/'') ''~1''"

definition buildPointerPath :: "string list \<Rightarrow> string" where
  "buildPointerPath segments =
     (if length segments < 1 then []
      else ''/'' @ joinWith ''/'' (map Escape segments))"

definition NewBodyPointer :: "string list \<Rightarrow> Pointer" where
  "NewBodyPointer segments = \<lparr>Field = bodyPointer, Path = buildPointerPath segments\<rparr>"

definition NewURLPointer :: "string list \<Rightarrow> Pointer" where
  "NewURLPointer segments = \<lparr>Field = urlPointer, Path = buildPointerPath segments\<rparr>"

definition NewHeaderPointer :: "string list \<Rightarrow> Pointer" where
  "NewHeaderPointer segments = \<lparr>Field = headerPointer, Path = buildPointerPath segments\<rparr>"

section \<open>AddStep on slices\<close>

text \<open>
  \<open>Steps\<close> is a slice, and \<open>append\<close> writes into the backing array of its argument
  when the capacity allows, an array that other slices may share. Here a slice is a window
  (\<open>off\<close>, \<open>len\<close>, \<open>cap\<close>) on the array \<open>base\<close> of a store, and \<open>view\<close> is the
  sequence it shows. When the capacity is used up \<open>append\<close> copies into a new array
  whose capacity, larger than the length, is the runtime's choice: the argument \<open>newcap\<close>.
  The unused cells of a new array hold the nil \<open>Step\<close>.
\<close>

record slice =
  base :: nat
  off :: nat
  len :: nat
  cap :: nat

record store =
  arrays :: "nat \<Rightarrow> Step list"
  fresh :: nat

definition view :: "store \<Rightarrow> slice \<Rightarrow> Steps" where
  "view h s = take (len s) (drop (off s) (arrays h (base s)))"

definition wf_slice :: "store \<Rightarrow> slice \<Rightarrow> bool" where
  "wf_slice h s \<longleftrightarrow>
     base s < fresh h \<and> len s \<le> cap s \<and> off s + cap s \<le> length (arrays h (base s))"

definition appendStep :: "nat \<Rightarrow> store \<Rightarrow> slice \<Rightarrow> Step \<Rightarrow> store \<times> slice" where
  "appendStep newcap h s x =
     (if len s < cap s then
        (h\<lparr>arrays := (arrays h)(base s := (arrays h (base s))[off s + len s := x])\<rparr>,
         s\<lparr>len := len s + 1\<rparr>)
      else
        (h\<lparr>arrays := (arrays h)(fresh h :=
              view h s @ [x] @ replicate (newcap - (len s + 1)) (OtherStep ''<nil>'')),
           fresh := fresh h + 1\<rparr>,
         \<lparr>base = fresh h, off = 0, len = len s + 1, cap = newcap\<rparr>))"

definition AddStep_slice :: "nat \<Rightarrow> store \<Rightarrow> slice \<Rightarrow> Step \<Rightarrow> store \<times> slice" where
  "AddStep_slice newcap h steps step = appendStep newcap h steps step"

section \<open>The specification's reading of the pointer path\<close>

text \<open>
  The escaping rule character by character, and the path as the specification words it:
  the escaped segments joined with \<open>/\<close>.
\<close>

definition spec_escape :: "string \<Rightarrow> string" where
  "spec_escape s =
     concat (map (\<lambda>c. if c = CHR ''~'' then ''~0'' else if c = CHR ''/'' then ''~1'' else [c]) s)"

definition spec_pointer_path :: "string list \<Rightarrow> string" where
  "spec_pointer_path segments = joinWith ''/'' (map spec_escape segments)"

section \<open>The specification's reading of records and numbers\<close>

text \<open>
  The six tags, those whose value is a string and those whose value is an index; the tag
  of each variant; and the reading of a number literal that is an optional sign and decimal
  digits: its value, and whether that value is an \<open>int64\<close>.
\<close>

definition knownKinds :: "string list" where
  "knownKinds = [''body'', ''header'', ''url_param'', ''array_index'', ''object_property'',
                 ''string_index'']"

definition decValue :: "string \<Rightarrow> nat" where
  "decValue s = foldl (\<lambda>n c. n * 10 + digitVal c) 0 s"

definition signedDigits :: "string \<Rightarrow> bool" where
  "signedDigits s \<longleftrightarrow>
     (case s of
        [] \<Rightarrow> False
      | c # cs \<Rightarrow>
          if c = CHR ''+'' \<or> c = CHR ''-'' then cs \<noteq> [] \<and> list_all isDigit cs
          else list_all isDigit s)"

definition literalValue :: "string \<Rightarrow> int" where
  "literalValue s =
     (case s of
        [] \<Rightarrow> 0
      | c # cs \<Rightarrow>
          if c = CHR ''-'' then - int (decValue cs)
          else if c = CHR ''+'' then int (decValue cs)
          else int (decValue s))"

text \<open>
  \<open>records\<close> is what the decoder has stored in the slice of records when it returns,
  with an error or without one: a field whose JSON value has the wrong type keeps its zero
  value, and a text that is no JSON value stores nothing.
\<close>

definition records :: "string \<Rightarrow> genericStep list" where
  "records inp =
     (case parseValue maxNestingDepth inp of
        None \<Rightarrow> []
      | Some (v, rest) \<Rightarrow> fst (storeSlice v))"

definition stringKinds :: "string list" where
  "stringKinds = [''header'', ''url_param'', ''object_property'']"

definition indexKinds :: "string list" where
  "indexKinds = [''array_index'', ''string_index'']"

definition fitsInt64 :: "string \<Rightarrow> bool" where
  "fitsInt64 n \<longleftrightarrow>
     signedDigits n \<and> - 9223372036854775808 \<le> literalValue n \<and> literalValue n < 9223372036854775808"

fun stepKind :: "Step \<Rightarrow> string" where
  "stepKind BodyStep = ''body''"
| "stepKind (HeaderStep _) = ''header''"
| "stepKind (URLParamStep _) = ''url_param''"
| "stepKind (ArrayIndexStep _) = ''array_index''"
| "stepKind (ObjectPropertyStep _) = ''object_property''"
| "stepKind (StringIndexStep _) = ''string_index''"
| "stepKind (OtherStep _) = []"

section \<open>The specification's reading of encoding and decoding\<close>

text \<open>
  \<open>coerceUTF8\<close> is the string with every byte that starts no valid encoding replaced by
  U+FFFD, \<open>validUTF8\<close> is \<open>utf8.ValidString\<close>. \<open>specRecord\<close> and \<open>specRecordText\<close>
  are the record and the JSON text the specification gives for each variant;
  \<open>recordTree\<close> and \<open>decodedRecord\<close> are what the decoder makes of that text.
\<close>

fun coerceUTF8 :: "string \<Rightarrow> string" where
  "coerceUTF8 [] = []"
| "coerceUTF8 (c # cs) =
     (if (of_char c :: nat) < 0x80 then c # coerceUTF8 cs
      else
        (case DecodeRune (c # cs) of (r, n) \<Rightarrow>
           if r = RuneError \<and> n = 1 then EncodeRune RuneError @ coerceUTF8 cs
           else take n (c # cs) @ coerceUTF8 (drop (n - 1) cs)))"

fun validUTF8 :: "string \<Rightarrow> bool" where
  "validUTF8 [] = True"
| "validUTF8 (c # cs) =
     (if (of_char c :: nat) < 0x80 then validUTF8 cs
      else
        (case DecodeRune (c # cs) of (r, n) \<Rightarrow>
           \<not> (r = RuneError \<and> n = 1) \<and> validUTF8 (drop (n - 1) cs)))"

fun isVariant :: "Step \<Rightarrow> bool" where
  "isVariant (OtherStep _) = False"
| "isVariant _ = True"

fun specRecord :: "Step \<Rightarrow> genericStep" where
  "specRecord BodyStep = \<lparr>Kind = ''body'', Value = None\<rparr>"
| "specRecord (HeaderStep name) = \<lparr>Kind = ''header'', Value = Some (AString name)\<rparr>"
| "specRecord (URLParamStep name) = \<lparr>Kind = ''url_param'', Value = Some (AString name)\<rparr>"
| "specRecord (ArrayIndexStep i) = \<lparr>Kind = ''array_index'', Value = Some (AInt64 i)\<rparr>"
| "specRecord (ObjectPropertyStep name) =
     \<lparr>Kind = ''object_property'', Value = Some (AString name)\<rparr>"
| "specRecord (StringIndexStep i) = \<lparr>Kind = ''string_index'', Value = Some (AInt64 i)\<rparr>"
| "specRecord (OtherStep t) = \<lparr>Kind = [], Value = None\<rparr>"

fun specRecordText :: "Step \<Rightarrow> string" where
  \<open>specRecordText BodyStep = ''{"kind":"body"}''\<close>
| \<open>specRecordText (HeaderStep name) = ''{"kind":"header","value":'' @ encodeString name @ ''}''\<close>
| \<open>specRecordText (URLParamStep name) =
     ''{"kind":"url_param","value":'' @ encodeString name @ ''}''\<close>
| \<open>specRecordText (ArrayIndexStep i) = ''{"kind":"array_index","value":'' @ FormatInt i @ ''}''\<close>
| \<open>specRecordText (ObjectPropertyStep name) =
     ''{"kind":"object_property","value":'' @ encodeString name @ ''}''\<close>
| \<open>specRecordText (StringIndexStep i) =
     ''{"kind":"string_index","value":'' @ FormatInt i @ ''}''\<close>
| \<open>specRecordText (OtherStep t) = []\<close>

fun coerceStep :: "Step \<Rightarrow> Step" where
  "coerceStep (HeaderStep name) = HeaderStep (coerceUTF8 name)"
| "coerceStep (URLParamStep name) = URLParamStep (coerceUTF8 name)"
| "coerceStep (ObjectPropertyStep name) = ObjectPropertyStep (coerceUTF8 name)"
| "coerceStep s = s"

fun validPayload :: "Step \<Rightarrow> bool" where
  "validPayload (HeaderStep name) = validUTF8 name"
| "validPayload (URLParamStep name) = validUTF8 name"
| "validPayload (ObjectPropertyStep name) = validUTF8 name"
| "validPayload s = True"

fun recordTree :: "Step \<Rightarrow> json" where
  "recordTree BodyStep = JObject [(''kind'', JString ''body'')]"
| "recordTree (HeaderStep name) =
     JObject [(''kind'', JString ''header''), (''value'', JString (coerceUTF8 name))]"
| "recordTree (URLParamStep name) =
     JObject [(''kind'', JString ''url_param''), (''value'', JString (coerceUTF8 name))]"
| "recordTree (ArrayIndexStep i) =
     JObject [(''kind'', JString ''array_index''), (''value'', JNumber (FormatInt i))]"
| "recordTree (ObjectPropertyStep name) =
     JObject [(''kind'', JString ''object_property''), (''value'', JString (coerceUTF8 name))]"
| "recordTree (StringIndexStep i) =
     JObject [(''kind'', JString ''string_index''), (''value'', JNumber (FormatInt i))]"
| "recordTree (OtherStep t) = JNull"

fun decodedRecord :: "Step \<Rightarrow> genericStep" where
  "decodedRecord BodyStep = \<lparr>Kind = ''body'', Value = None\<rparr>"
| "decodedRecord (HeaderStep name) =
     \<lparr>Kind = ''header'', Value = Some (AString (coerceUTF8 name))\<rparr>"
| "decodedRecord (URLParamStep name) =
     \<lparr>Kind = ''url_param'', Value = Some (AString (coerceUTF8 name))\<rparr>"
| "decodedRecord (ArrayIndexStep i) =
     \<lparr>Kind = ''array_index'', Value = Some (ANumber (FormatInt i))\<rparr>"
| "decodedRecord (ObjectPropertyStep name) =
     \<lparr>Kind = ''object_property'', Value = Some (AString (coerceUTF8 name))\<rparr>"
| "decodedRecord (StringIndexStep i) =
     \<lparr>Kind = ''string_index'', Value = Some (ANumber (FormatInt i))\<rparr>"
| "decodedRecord (OtherStep t) = \<lparr>Kind = [], Value = None\<rparr>"

text \<open>
  The reading of a record's text that does not go through the encoder: \<open>unquote\<close> is
  the string a JSON string literal stands for, \<open>valueLiteral\<close> the text of the value
  member of an object written with the given kind first, and \<open>isRecordOf\<close> says of a
  text that it is the record of a step: for \<open>BodyStep\<close> the object with the kind only,
  for a named step a value member whose literal stands for the name (coerced to valid
  UTF-8), for an index step a value member that is a JSON number, a sign and digits only,
  with the minus sign exactly when the index is negative and the index as its value.
\<close>

definition unquote :: "string \<Rightarrow> string option" where
  "unquote lit =
     (case lit of
        [] \<Rightarrow> None
      | q # body \<Rightarrow>
          if q = CHR 0x22 then
            (case scanString body of
               None \<Rightarrow> None
             | Some (s, rest) \<Rightarrow> if rest = [] then Some s else None)
          else None)"

definition valueLiteral :: "string \<Rightarrow> string \<Rightarrow> string option" where
  \<open>valueLiteral kind t =
     (let pre = ''{"kind":"'' @ kind @ ''","value":''
      in if length pre < length t \<and> take (length pre) t = pre \<and> last t = CHR ''}''
         then Some (butlast (drop (length pre) t))
         else None)\<close>

definition isStringMember :: "string \<Rightarrow> string \<Rightarrow> string \<Rightarrow> bool" where
  "isStringMember kind name t \<longleftrightarrow>
     (case valueLiteral kind t of
        None \<Rightarrow> False
      | Some lit \<Rightarrow> unquote lit = Some (coerceUTF8 name))"

definition isIntMember :: "string \<Rightarrow> 64 word \<Rightarrow> string \<Rightarrow> bool" where
  "isIntMember kind i t \<longleftrightarrow>
     (case valueLiteral kind t of
        None \<Rightarrow> False
      | Some lit \<Rightarrow>
          isValidNumber lit \<and> signedDigits lit \<and> literalValue lit = sint i
            \<and> (hd lit = CHR ''-'') = (sint i < 0))"

fun isRecordOf :: "Step \<Rightarrow> string \<Rightarrow> bool" where
  \<open>isRecordOf BodyStep t \<longleftrightarrow> t = ''{"kind":"body"}''\<close>
| "isRecordOf (HeaderStep name) t \<longleftrightarrow> isStringMember ''header'' name t"
| "isRecordOf (URLParamStep name) t \<longleftrightarrow> isStringMember ''url_param'' name t"
| "isRecordOf (ArrayIndexStep i) t \<longleftrightarrow> isIntMember ''array_index'' i t"
| "isRecordOf (ObjectPropertyStep name) t \<longleftrightarrow> isStringMember ''object_property'' name t"
| "isRecordOf (StringIndexStep i) t \<longleftrightarrow> isIntMember ''string_index'' i t"
| "isRecordOf (OtherStep _) t \<longleftrightarrow> False"

section \<open>Properties\<close>

subsection \<open>Builders and pointers\<close>

lemma view_length: "wf_slice h s \<Longrightarrow> length (view h s) = len s"
  by (auto simp: view_def wf_slice_def)

lemma appendStep_view:
  assumes wf: "wf_slice h s" and nc: "len s < newcap"
  shows "view (fst (appendStep newcap h s x)) (snd (appendStep newcap h s x)) = view h s @ [x]"
proof (cases "len s < cap s")
  case True
  let ?a = "arrays h (base s)"
  from wf True have lt: "off s + len s < length ?a" by (simp add: wf_slice_def)
  have "take (Suc (len s)) (drop (off s) (?a[off s + len s := x]))
        = take (len s) (drop (off s) ?a) @ [x]"
    using lt by (simp add: take_Suc_conv_app_nth drop_update_swap)
  with True show ?thesis by (simp add: appendStep_def view_def)
next
  case False
  with wf have "length (view h s) = len s" by (simp add: view_length)
  with False nc show ?thesis by (simp add: appendStep_def view_def)
qed

lemma appendStep_old:
  assumes wf: "wf_slice h s"
  shows "view (fst (appendStep newcap h s x)) s = view h s"
proof (cases "len s < cap s")
  case True
  then show ?thesis by (simp add: appendStep_def view_def drop_update_swap)
next
  case False
  with wf show ?thesis by (simp add: appendStep_def view_def wf_slice_def)
qed

lemma Escape_spec: "Escape s = spec_escape s"
  by (induction s) (simp_all add: Escape_def ReplaceAll_def spec_escape_def)

lemma buildPointerPath_concat:
  "buildPointerPath segs = concat (map (\<lambda>s. CHR ''/'' # spec_escape s) segs)"
  by (cases segs) (simp_all add: buildPointerPath_def joinWith_def Escape_spec comp_def)

text \<open>
  Claim C9, as the code has it: the three constructors set the field tag \<open>body\<close>,
  \<open>url\<close> and \<open>header\<close>, and the path is every segment, escaped (\<open>~\<close> to \<open>~0\<close>,
  \<open>/\<close> to \<open>~1\<close>), each preceded by a \<open>/\<close>; no segments give the empty path.
\<close>

theorem pointer_fields_and_path:
  "Field (NewBodyPointer segs) = ''body'' \<and> Field (NewURLPointer segs) = ''url''
   \<and> Field (NewHeaderPointer segs) = ''header''
   \<and> Path (NewBodyPointer segs) = concat (map (\<lambda>s. CHR ''/'' # spec_escape s) segs)
   \<and> Path (NewURLPointer segs) = concat (map (\<lambda>s. CHR ''/'' # spec_escape s) segs)
   \<and> Path (NewHeaderPointer segs) = concat (map (\<lambda>s. CHR ''/'' # spec_escape s) segs)"
  by (simp add: NewBodyPointer_def NewURLPointer_def NewHeaderPointer_def bodyPointer_def
      urlPointer_def headerPointer_def buildPointerPath_concat)

text \<open>
  Claim C9 as worded, the escaped segments joined with \<open>/\<close>, is not what the
  constructors return: the path has a leading \<open>/\<close> that a join does not give.
\<close>

theorem pointer_path_not_plain_join:
  "Path (NewBodyPointer [''a'', ''b/c~'']) = ''/a/b~1c~0''
   \<and> spec_pointer_path [''a'', ''b/c~''] = ''a/b~1c~0''
   \<and> Path (NewBodyPointer [''a'', ''b/c~'']) \<noteq> spec_pointer_path [''a'', ''b/c~'']"
  by (simp add: NewBodyPointer_def buildPointerPath_def joinWith_def Escape_def ReplaceAll_def
      spec_pointer_path_def spec_escape_def)

subsection \<open>The empty sequence\<close>

text \<open>
  Claim C3: the empty sequence is encoded as the two characters \<open>[]\<close>, and decoding
  that text succeeds and leaves the empty sequence behind the receiver, whatever was there.
\<close>

theorem empty_sequence:
  "MarshalJSON [] = Inr ''[]'' \<and> UnmarshalJSON dst ''[]'' = ([], None)"
proof -
  have p: "parseValue maxNestingDepth ''[]'' = Some (JArray [], [])"
    by code_simp
  have "MarshalJSON [] = Inr ''[]''"
    by (simp add: MarshalJSON_def Marshal_def joinWith_def)
  moreover have "UnmarshalJSON dst ''[]'' = ([], None)"
    by (simp add: UnmarshalJSON_def Decode_def p storeSlice_def)
  ultimately show ?thesis by simp
qed

subsection \<open>Appending\<close>

text \<open>
  Claim C7: the three path constructors return the one-element sequences, and \<open>AddStep\<close>
  returns the sequence extended by the step at its end. On slices with a shared backing
  array the same holds of what the returned slice shows, and what the argument slice shows
  is unchanged by the call.
\<close>

theorem path_builders:
  "BodyPath = [BodyStep] \<and> HeaderPath name = [HeaderStep name]
   \<and> URLParamPath param = [URLParamStep param]
   \<and> AddStep s x = s @ [x]
   \<and> (wf_slice h sl \<and> len sl < newcap \<longrightarrow>
        view (fst (AddStep_slice newcap h sl x)) (snd (AddStep_slice newcap h sl x))
          = AddStep (view h sl) x
        \<and> view (fst (AddStep_slice newcap h sl x)) sl = view h sl)"
  by (simp add: BodyPath_def HeaderPath_def URLParamPath_def AddStep_def AddStep_slice_def
      appendStep_view appendStep_old)

theorem path_builders_witness:
  "wf_slice \<lparr>arrays = (\<lambda>a. [BodyStep, OtherStep ''<nil>'']), fresh = 1\<rparr>
     \<lparr>base = 0, off = 0, len = 1, cap = 2\<rparr>
   \<and> len \<lparr>base = 0, off = 0, len = 1, cap = 2\<rparr> < (4::nat)
   \<and> view (fst (AddStep_slice 4 \<lparr>arrays = (\<lambda>a. [BodyStep, OtherStep ''<nil>'']), fresh = 1\<rparr>
                   \<lparr>base = 0, off = 0, len = 1, cap = 2\<rparr> (HeaderStep ''a'')))
          (snd (AddStep_slice 4 \<lparr>arrays = (\<lambda>a. [BodyStep, OtherStep ''<nil>'']), fresh = 1\<rparr>
                   \<lparr>base = 0, off = 0, len = 1, cap = 2\<rparr> (HeaderStep ''a'')))
       = [BodyStep, HeaderStep ''a'']
   \<and> view (fst (AddStep_slice 4 \<lparr>arrays = (\<lambda>a. [BodyStep, OtherStep ''<nil>'']), fresh = 1\<rparr>
                   \<lparr>base = 0, off = 0, len = 1, cap = 2\<rparr> (HeaderStep ''a'')))
          \<lparr>base = 0, off = 0, len = 1, cap = 2\<rparr>
       = [BodyStep]"
  using path_builders [of "''x''" "''y''" "[]" "HeaderStep ''a''"
      "\<lparr>arrays = (\<lambda>a. [BodyStep, OtherStep ''<nil>'']), fresh = 1\<rparr>"
      "\<lparr>base = 0, off = 0, len = 1, cap = 2\<rparr>" 4]
  by (simp add: wf_slice_def view_def AddStep_def)

subsection \<open>The loop\<close>

lemma unmarshalLoop_append:
  "unmarshalLoop pos (xs @ ys) acc =
     (case unmarshalLoop pos xs acc of
        Inl e \<Rightarrow> Inl e
      | Inr r \<Rightarrow> unmarshalLoop (pos + length xs) ys r)"
  by (induction xs arbitrary: pos acc) (auto split: sum.splits)

lemma unmarshalLoop_Inr:
  "unmarshalLoop pos gs acc = Inr r \<Longrightarrow>
     \<exists>ss. r = acc @ ss \<and> length ss = length gs
        \<and> (\<forall>i<length gs. switchKind (pos + i) (gs ! i) = Inr (ss ! i))"
proof (induction gs arbitrary: pos acc)
  case Nil
  then show ?case by simp
next
  case (Cons g gs)
  from Cons.prems obtain s where s: "switchKind pos g = Inr s"
    and rest: "unmarshalLoop (pos + 1) gs (acc @ [s]) = Inr r"
    by (auto simp: AddStep_def split: sum.splits)
  from Cons.IH [OF rest] obtain ss where r: "r = (acc @ [s]) @ ss"
    and len: "length ss = length gs"
    and ih: "\<forall>i<length gs. switchKind (pos + 1 + i) (gs ! i) = Inr (ss ! i)"
    by blast
  have "\<forall>i<length (g # gs). switchKind (pos + i) ((g # gs) ! i) = Inr ((s # ss) ! i)"
  proof (intro allI impI)
    fix i assume "i < length (g # gs)"
    show "switchKind (pos + i) ((g # gs) ! i) = Inr ((s # ss) ! i)"
    proof (cases i)
      case 0
      with s show ?thesis by simp
    next
      case (Suc j)
      with \<open>i < length (g # gs)\<close> ih show ?thesis by simp
    qed
  qed
  with r len show ?case by (intro exI [of _ "s # ss"]) simp
qed

lemma unmarshalLoop_Inl:
  "unmarshalLoop pos gs acc = Inl e \<Longrightarrow>
     \<exists>i<length gs. switchKind (pos + i) (gs ! i) = Inl e
        \<and> (\<forall>j<i. \<exists>s. switchKind (pos + j) (gs ! j) = Inr s)"
proof (induction gs arbitrary: pos acc)
  case Nil
  then show ?case by simp
next
  case (Cons g gs)
  show ?case
  proof (cases "switchKind pos g")
    case (Inl e')
    with Cons.prems have "e' = e" by simp
    with Inl have "switchKind (pos + 0) ((g # gs) ! 0) = Inl e" by simp
    then show ?thesis by (intro exI [of _ 0]) simp
  next
    case (Inr s)
    with Cons.prems have "unmarshalLoop (pos + 1) gs (AddStep acc s) = Inl e" by simp
    from Cons.IH [OF this] obtain i where i: "i < length gs"
      and ei: "switchKind (pos + 1 + i) (gs ! i) = Inl e"
      and before: "\<forall>j<i. \<exists>s. switchKind (pos + 1 + j) (gs ! j) = Inr s"
      by blast
    have "\<forall>j<Suc i. \<exists>s. switchKind (pos + j) ((g # gs) ! j) = Inr s"
    proof (intro allI impI)
      fix j assume "j < Suc i"
      show "\<exists>s. switchKind (pos + j) ((g # gs) ! j) = Inr s"
      proof (cases j)
        case 0
        with Inr show ?thesis by simp
      next
        case (Suc k)
        with \<open>j < Suc i\<close> before show ?thesis by simp
      qed
    qed
    with i ei show ?thesis by (intro exI [of _ "Suc i"]) simp
  qed
qed

lemma unmarshalLoop_first_error:
  assumes p: "p < length gs"
    and e: "switchKind (pos + p) (gs ! p) = Inl e"
    and before: "\<forall>j<p. \<exists>s. switchKind (pos + j) (gs ! j) = Inr s"
  shows "unmarshalLoop pos gs acc = Inl e"
proof (cases "unmarshalLoop pos gs acc")
  case (Inl e')
  from unmarshalLoop_Inl [OF Inl] obtain i where i: "i < length gs"
    and ei: "switchKind (pos + i) (gs ! i) = Inl e'"
    and bi: "\<forall>j<i. \<exists>s. switchKind (pos + j) (gs ! j) = Inr s"
    by blast
  have "i = p"
  proof (rule ccontr)
    assume "i \<noteq> p"
    then consider "i < p" | "p < i" by linarith
    then show False
    proof cases
      case 1
      with before ei show False by auto
    next
      case 2
      with bi e show False by auto
    qed
  qed
  with ei e Inl show ?thesis by simp
next
  case (Inr r)
  from unmarshalLoop_Inr [OF Inr] p e show ?thesis by auto
qed

lemma unmarshalLoop_any_error:
  assumes p: "p < length gs" and e: "switchKind (pos + p) (gs ! p) = Inl e"
  shows "\<exists>e'. unmarshalLoop pos gs acc = Inl e'"
proof (cases "unmarshalLoop pos gs acc")
  case (Inl e')
  then show ?thesis by blast
next
  case (Inr r)
  from unmarshalLoop_Inr [OF Inr] p e show ?thesis by auto
qed

subsection \<open>ParseInt\<close>

lemma foldl_dec_ge: "a \<le> foldl (\<lambda>n c. n * 10 + digitVal c) a s"
proof (induction s arbitrary: a)
  case Nil
  then show ?case by simp
next
  case (Cons c cs)
  have "a \<le> a * 10 + digitVal c" by simp
  also have "\<dots> \<le> foldl (\<lambda>n c. n * 10 + digitVal c) (a * 10 + digitVal c) cs"
    by (rule Cons.IH)
  finally show ?case by simp
qed

lemma parseUintLoop_digits:
  "list_all isDigit s \<Longrightarrow> a \<le> 18446744073709551615 \<Longrightarrow>
     parseUintLoop a s =
       (if foldl (\<lambda>n c. n * 10 + digitVal c) a s \<le> 18446744073709551615
        then Inr (foldl (\<lambda>n c. n * 10 + digitVal c) a s) else Inl ErrRange)"
proof (induction s arbitrary: a)
  case Nil
  then show ?case by simp
next
  case (Cons c cs)
  let ?f = "\<lambda>n c. n * 10 + digitVal c"
  from Cons.prems have dc: "isDigit c" and dcs: "list_all isDigit cs" by simp_all
  have ge: "a * 10 + digitVal c \<le> foldl ?f (a * 10 + digitVal c) cs"
    by (rule foldl_dec_ge)
  show ?case
  proof (cases "a \<ge> 18446744073709551615 div 10 + 1")
    case True
    then have "a * 10 + digitVal c > 18446744073709551615" by simp
    with ge have "foldl ?f (a * 10 + digitVal c) cs > 18446744073709551615" by linarith
    with True dc show ?thesis by simp
  next
    case False
    show ?thesis
    proof (cases "a * 10 + digitVal c > 18446744073709551615")
      case True
      with ge have "foldl ?f (a * 10 + digitVal c) cs > 18446744073709551615" by linarith
      with True False dc show ?thesis by simp
    next
      case nov: False
      then have "a * 10 + digitVal c \<le> 18446744073709551615" by simp
      from Cons.IH [OF dcs this] nov False dc show ?thesis by simp
    qed
  qed
qed

lemma parseUintLoop_nondigit:
  "\<exists>c\<in>set s. \<not> isDigit c \<Longrightarrow> \<exists>e. parseUintLoop a s = Inl e"
  by (induction s arbitrary: a) auto

lemma isDigit_signs: "\<not> isDigit (CHR ''+'')" "\<not> isDigit (CHR ''-'')"
  by (simp_all add: isDigit_def)

lemma ParseUint_digits:
  "s \<noteq> [] \<Longrightarrow> list_all isDigit s \<Longrightarrow>
     ParseUint s = (if decValue s \<le> 18446744073709551615 then Inr (decValue s) else Inl ErrRange)"
  by (simp add: ParseUint_def parseUintLoop_digits decValue_def)

lemma sint_in_range:
  "- 9223372036854775808 \<le> v \<Longrightarrow> v < 9223372036854775808 \<Longrightarrow> sint (word_of_int v :: 64 word) = v"
  by (simp add: int_word_sint)

lemma ParseInt_signedDigits:
  assumes "signedDigits s"
  shows "ParseInt s =
           (if - 9223372036854775808 \<le> literalValue s \<and> literalValue s < 9223372036854775808
            then Inr (word_of_int (literalValue s)) else Inl ErrRange)"
proof (cases s)
  case Nil
  with assms show ?thesis by (simp add: signedDigits_def)
next
  case (Cons c cs)
  show ?thesis
  proof (cases "c = CHR ''-''")
    case True
    with assms Cons have cs: "cs \<noteq> []" "list_all isDigit cs" by (simp_all add: signedDigits_def)
    from True Cons have lv: "literalValue s = - int (decValue cs)" by (simp add: literalValue_def)
    from True Cons cs show ?thesis
      unfolding lv by (simp add: ParseInt_def ParseUint_digits Let_def)
  next
    case notminus: False
    show ?thesis
    proof (cases "c = CHR ''+''")
      case True
      with assms Cons have cs: "cs \<noteq> []" "list_all isDigit cs" by (simp_all add: signedDigits_def)
      from True Cons have lv: "literalValue s = int (decValue cs)" by (simp add: literalValue_def)
      from True Cons cs show ?thesis
        unfolding lv by (simp add: ParseInt_def ParseUint_digits Let_def)
    next
      case False
      with notminus assms Cons have ds: "list_all isDigit s" by (simp add: signedDigits_def)
      from False notminus Cons have lv: "literalValue s = int (decValue s)"
        by (simp add: literalValue_def)
      from False notminus Cons ds show ?thesis
        unfolding lv by (simp add: ParseInt_def ParseUint_digits Let_def)
    qed
  qed
qed

lemma ParseInt_not_signedDigits:
  assumes "\<not> signedDigits s"
  shows "\<exists>e. ParseInt s = Inl e"
proof (cases s)
  case Nil
  then show ?thesis by (simp add: ParseInt_def)
next
  case (Cons c cs)
  show ?thesis
  proof (cases "c = CHR ''+'' \<or> c = CHR ''-''")
    case True
    with assms Cons have "cs = [] \<or> (\<exists>d\<in>set cs. \<not> isDigit d)"
      by (auto simp: signedDigits_def list_all_iff)
    then have "\<exists>e. ParseUint cs = Inl e"
      using parseUintLoop_nondigit [of cs 0] by (auto simp: ParseUint_def)
    with True Cons show ?thesis by (auto simp: ParseInt_def Let_def)
  next
    case False
    with assms Cons have "\<exists>d\<in>set s. \<not> isDigit d"
      by (auto simp: signedDigits_def list_all_iff)
    then have "\<exists>e. ParseUint s = Inl e"
      using parseUintLoop_nondigit [of s 0] Cons by (auto simp: ParseUint_def)
    with False Cons show ?thesis by (auto simp: ParseInt_def Let_def)
  qed
qed

lemma ParseInt_Inr:
  assumes "ParseInt s = Inr w"
  shows "signedDigits s \<and> - 9223372036854775808 \<le> literalValue s
         \<and> literalValue s < 9223372036854775808 \<and> sint w = literalValue s"
proof -
  have sd: "signedDigits s"
    using assms ParseInt_not_signedDigits [of s] by auto
  from ParseInt_signedDigits [OF sd] assms
  have r: "- 9223372036854775808 \<le> literalValue s \<and> literalValue s < 9223372036854775808"
    and w: "w = word_of_int (literalValue s)"
    by (auto split: if_splits)
  from r w sd show ?thesis by (simp add: sint_in_range)
qed

subsection \<open>One record\<close>

lemma switchKind_unknown:
  "Kind g \<notin> set knownKinds \<Longrightarrow>
     switchKind p g = Inl (UnexpectedKind p (Kind g) ''*interface {}'')"
  by (simp add: switchKind_def knownKinds_def)

lemma switchKind_body: "Kind g = ''body'' \<Longrightarrow> switchKind p g = Inr BodyStep"
  by (simp add: switchKind_def)

lemma switchKind_no_value:
  "Kind g \<in> set stringKinds \<union> set indexKinds \<Longrightarrow> Value g = None \<Longrightarrow>
     switchKind p g = Inl (NoValue p)"
  by (auto simp: switchKind_def stringKinds_def indexKinds_def)

lemma switchKind_wanted_string:
  "Kind g \<in> set stringKinds \<Longrightarrow> Value g = Some v \<Longrightarrow> \<forall>s. v \<noteq> AString s \<Longrightarrow>
     switchKind p g = Inl (WantedString p (typeName v))"
  by (cases v) (auto simp: switchKind_def stringKinds_def)

lemma switchKind_wanted_number:
  "Kind g \<in> set indexKinds \<Longrightarrow> Value g = Some v \<Longrightarrow> \<forall>n. v \<noteq> ANumber n \<Longrightarrow>
     switchKind p g = Inl (WantedNumber p (typeName v))"
  by (cases v) (auto simp: switchKind_def indexKinds_def)

lemma Int64_fits:
  "Int64 n = (if fitsInt64 n then Inr (word_of_int (literalValue n))
              else Inl (if signedDigits n then ErrRange else (case ParseInt n of Inl e \<Rightarrow> e | Inr w \<Rightarrow> ErrSyntax)))"
proof (cases "signedDigits n")
  case True
  then show ?thesis by (simp add: Int64_def fitsInt64_def ParseInt_signedDigits)
next
  case False
  from ParseInt_not_signedDigits [OF False] obtain e where "ParseInt n = Inl e" by blast
  with False show ?thesis by (simp add: Int64_def fitsInt64_def)
qed

lemma switchKind_bad_int:
  "Kind g \<in> set indexKinds \<Longrightarrow> Value g = Some (ANumber n) \<Longrightarrow> \<not> fitsInt64 n \<Longrightarrow>
     \<exists>err. switchKind p g = Inl (BadInt64 p n err) \<and> (signedDigits n \<longrightarrow> err = ErrRange)"
  by (auto simp: switchKind_def indexKinds_def Int64_fits)

lemma fraction_not_fits: "CHR ''.'' \<in> set n \<Longrightarrow> \<not> fitsInt64 n"
proof
  assume dot: "CHR ''.'' \<in> set n" and "fitsInt64 n"
  then have sd: "signedDigits n" by (simp add: fitsInt64_def)
  have nd: "\<not> isDigit (CHR ''.'')" by (simp add: isDigit_def)
  from sd dot nd show False
    by (cases n) (auto simp: signedDigits_def list_all_iff split: if_splits)
qed

lemma switchKind_Inr:
  assumes "switchKind p g = Inr s"
  shows "stepKind s = Kind g \<and> Kind g \<in> set knownKinds
     \<and> (Kind g \<in> set stringKinds \<longrightarrow>
          (\<exists>t. Value g = Some (AString t) \<and> s \<in> {HeaderStep t, URLParamStep t, ObjectPropertyStep t}))
     \<and> (Kind g \<in> set indexKinds \<longrightarrow>
          (\<exists>n w. Value g = Some (ANumber n) \<and> fitsInt64 n \<and> sint w = literalValue n
                 \<and> s \<in> {ArrayIndexStep w, StringIndexStep w}))"
proof -
  have k: "Kind g \<in> set knownKinds"
    using assms switchKind_unknown [of g p] by auto
  show ?thesis
  proof (cases "Kind g = ''body''")
    case True
    with assms show ?thesis
      by (simp add: switchKind_def knownKinds_def stringKinds_def indexKinds_def)
  next
    case nb: False
    show ?thesis
    proof (cases "Kind g \<in> set stringKinds")
      case True
      then have ni: "Kind g \<notin> set indexKinds" by (auto simp: stringKinds_def indexKinds_def)
      from True assms obtain v where v: "Value g = Some v"
        using switchKind_no_value [of g p] by (cases "Value g") auto
      from True assms v obtain t where t: "v = AString t"
        using switchKind_wanted_string [of g v p] by auto
      from True assms v t k ni show ?thesis
        by (auto simp: switchKind_def stringKinds_def)
    next
      case ns: False
      with nb k have ik: "Kind g \<in> set indexKinds"
        by (auto simp: knownKinds_def stringKinds_def indexKinds_def)
      from ik assms obtain v where v: "Value g = Some v"
        using switchKind_no_value [of g p] by (cases "Value g") auto
      from ik assms v obtain n where n: "v = ANumber n"
        using switchKind_wanted_number [of g v p] by auto
      from ik assms v n have f: "fitsInt64 n"
        using switchKind_bad_int [of g n p] by auto
      then have sv: "sint (word_of_int (literalValue n) :: 64 word) = literalValue n"
        by (simp add: fitsInt64_def sint_in_range)
      from ik assms v n f have
        "s = ArrayIndexStep (word_of_int (literalValue n)) \<or> s = StringIndexStep (word_of_int (literalValue n))"
        by (auto simp: switchKind_def indexKinds_def Int64_fits)
      with ik ns k v n f sv assms show ?thesis
        by (auto simp: switchKind_def indexKinds_def Int64_fits)
    qed
  qed
qed

subsection \<open>The whole decode\<close>

lemma UnmarshalJSON_error:
  "Decode inp = Inr gs \<Longrightarrow> unmarshalLoop 0 gs [] = Inl e \<Longrightarrow>
     UnmarshalJSON dst inp = (dst, Some e)"
  by (simp add: UnmarshalJSON_def)

lemma UnmarshalJSON_fails:
  assumes d: "Decode inp = Inr gs" and p: "p < length gs" and e: "switchKind p (gs ! p) = Inl e"
  shows "\<exists>e'. UnmarshalJSON dst inp = (dst, Some e')"
  using unmarshalLoop_any_error [of p gs 0 e "[]"] p e d by (auto simp: UnmarshalJSON_def)

lemma UnmarshalJSON_first:
  assumes d: "Decode inp = Inr gs" and p: "p < length gs" and e: "switchKind p (gs ! p) = Inl e"
    and before: "\<forall>j<p. \<exists>s. switchKind j (gs ! j) = Inr s"
  shows "UnmarshalJSON dst inp = (dst, Some e)"
  using unmarshalLoop_first_error [of p gs 0 e "[]"] p e d before by (simp add: UnmarshalJSON_def)

lemma Decode_records: "Decode inp = Inr gs \<Longrightarrow> records inp = gs"
  by (auto simp: Decode_def records_def split: option.splits prod.splits)

lemma Decode_cases: "(\<exists>je. Decode inp = Inl je) \<or> Decode inp = Inr (records inp)"
  by (cases "Decode inp") (auto dest: Decode_records)

lemma UnmarshalJSON_decoder_error:
  "Decode inp = Inl je \<Longrightarrow> UnmarshalJSON dst inp = (dst, Some (JSONError je))"
  by (simp add: UnmarshalJSON_def)

lemma UnmarshalJSON_fails_records:
  assumes p: "p < length (records inp)" and e: "switchKind p (records inp ! p) = Inl e"
  shows "\<exists>e'. UnmarshalJSON dst inp = (dst, Some e')"
proof -
  from Decode_cases [of inp] show ?thesis
  proof
    assume "\<exists>je. Decode inp = Inl je"
    then show ?thesis using UnmarshalJSON_decoder_error by blast
  next
    assume "Decode inp = Inr (records inp)"
    from UnmarshalJSON_fails [OF this p e] show ?thesis .
  qed
qed

text \<open>
  Claim C4, as the code has it: an input whose records hold one of unknown kind is never
  decoded, and what is behind the receiver stays. The error names the position of that
  record and its kind when the decoder itself has reported no error and no record before
  it is rejected; otherwise the decoder's error, or that of the first rejected record, is
  what the call returns.
\<close>

theorem unknown_kind_rejected:
  assumes "p < length (records inp)" and "Kind (records inp ! p) \<notin> set knownKinds"
  shows "(\<exists>e. UnmarshalJSON dst inp = (dst, Some e))
     \<and> (Decode inp = Inr (records inp)
          \<and> (\<forall>j<p. \<exists>s. switchKind j (records inp ! j) = Inr s) \<longrightarrow>
          UnmarshalJSON dst inp
            = (dst, Some (UnexpectedKind p (Kind (records inp ! p)) ''*interface {}'')))"
proof -
  have e: "switchKind p (records inp ! p)
             = Inl (UnexpectedKind p (Kind (records inp ! p)) ''*interface {}'')"
    by (rule switchKind_unknown [OF assms(2)])
  have any: "\<exists>e. UnmarshalJSON dst inp = (dst, Some e)"
    by (rule UnmarshalJSON_fails_records [OF assms(1) e])
  have first: "Decode inp = Inr (records inp)
          \<and> (\<forall>j<p. \<exists>s. switchKind j (records inp ! j) = Inr s) \<longrightarrow>
          UnmarshalJSON dst inp
            = (dst, Some (UnexpectedKind p (Kind (records inp ! p)) ''*interface {}''))"
    using UnmarshalJSON_first [OF _ assms(1) e] by blast
  from any first show ?thesis by blast
qed

theorem unknown_kind_rejected_witness:
  \<open>records ''[{"kind":"body"},{"kind":"bogus"}]''
      = [\<lparr>Kind = ''body'', Value = None\<rparr>, \<lparr>Kind = ''bogus'', Value = None\<rparr>]
   \<and> Decode ''[{"kind":"body"},{"kind":"bogus"}]''
      = Inr (records ''[{"kind":"body"},{"kind":"bogus"}]'')
   \<and> ''bogus'' \<notin> set knownKinds
   \<and> UnmarshalJSON [HeaderStep ''old''] ''[{"kind":"body"},{"kind":"bogus"}]''
        = ([HeaderStep ''old''], Some (UnexpectedKind 1 ''bogus'' ''*interface {}''))\<close>
proof -
  let ?inp = \<open>''[{"kind":"body"},{"kind":"bogus"}]''\<close>
  let ?gs = "[\<lparr>Kind = ''body'', Value = None\<rparr>, \<lparr>Kind = ''bogus'', Value = None\<rparr>]"
  have d: "Decode ?inp = Inr ?gs" by code_simp
  have r: "records ?inp = ?gs" by (rule Decode_records [OF d])
  have p: "1 < length (records ?inp)" by (simp add: r)
  have k: "Kind (records ?inp ! 1) \<notin> set knownKinds" by (simp add: r knownKinds_def)
  have b: "\<forall>j<(1::nat). \<exists>s. switchKind j (records ?inp ! j) = Inr s"
    by (simp add: r switchKind_def)
  from unknown_kind_rejected [OF p k, of "[HeaderStep ''old'']"] b d r
  show ?thesis by (simp add: knownKinds_def)
qed

text \<open>
  Claim C4 as worded fails when an earlier record is rejected first: the error then names
  that record, not the one of unknown kind. It fails also when the decoder reports an error
  of its own, here for the kind of the second record, which is a number: the call returns
  that error though the first record has an unknown kind.
\<close>

theorem unknown_kind_behind_other_error:
  \<open>records ''[{"kind":"header"},{"kind":"bogus"}]''
      = [\<lparr>Kind = ''header'', Value = None\<rparr>, \<lparr>Kind = ''bogus'', Value = None\<rparr>]
   \<and> ''bogus'' \<notin> set knownKinds
   \<and> UnmarshalJSON [] ''[{"kind":"header"},{"kind":"bogus"}]'' = ([], Some (NoValue 0))
   \<and> records ''[{"kind":"bogus"},{"kind":5}]''
      = [\<lparr>Kind = ''bogus'', Value = None\<rparr>, \<lparr>Kind = [], Value = None\<rparr>]
   \<and> UnmarshalJSON [] ''[{"kind":"bogus"},{"kind":5}]''
        = ([], Some (JSONError (UnmarshalTypeError ''number'' ''string'')))\<close>
proof -
  have d: \<open>Decode ''[{"kind":"header"},{"kind":"bogus"}]''
      = Inr [\<lparr>Kind = ''header'', Value = None\<rparr>, \<lparr>Kind = ''bogus'', Value = None\<rparr>]\<close>
    by code_simp
  have u: \<open>UnmarshalJSON [] ''[{"kind":"header"},{"kind":"bogus"}]'' = ([], Some (NoValue 0))\<close>
    by (simp add: UnmarshalJSON_def d switchKind_def)
  have r2: \<open>records ''[{"kind":"bogus"},{"kind":5}]''
      = [\<lparr>Kind = ''bogus'', Value = None\<rparr>, \<lparr>Kind = [], Value = None\<rparr>]\<close>
    by code_simp
  have d2: \<open>Decode ''[{"kind":"bogus"},{"kind":5}]''
      = Inl (UnmarshalTypeError ''number'' ''string'')\<close>
    by code_simp
  from Decode_records [OF d] u r2 UnmarshalJSON_decoder_error [OF d2, of "[]"]
  show ?thesis by (simp add: knownKinds_def)
qed

text \<open>
  Claim C5, as the code has it: a record of kind \<open>header\<close>, \<open>url_param\<close> or
  \<open>object_property\<close> whose value is absent (or \<open>null\<close>) or no string, and a record of
  kind \<open>array_index\<close> or \<open>string_index\<close> whose value is absent, no number, or a number
  that \<open>ParseInt\<close> does not read as an \<open>int64\<close>, makes the decode fail. When the
  decoder itself has reported no error and no record before it is rejected, the error
  carries its position and says which it was: no value, the wrong type, or the number that
  could not be read.
\<close>

theorem value_checked_per_kind:
  assumes p: "p < length (records inp)"
    and k: "Kind (records inp ! p) \<in> set stringKinds \<union> set indexKinds"
    and bad: "Value (records inp ! p) = None
              \<or> (Kind (records inp ! p) \<in> set stringKinds
                  \<and> (\<forall>s. Value (records inp ! p) \<noteq> Some (AString s)))
              \<or> (Kind (records inp ! p) \<in> set indexKinds
                  \<and> (\<forall>n. Value (records inp ! p) = Some (ANumber n) \<longrightarrow> \<not> fitsInt64 n))"
  shows "(\<exists>e. UnmarshalJSON dst inp = (dst, Some e))
     \<and> (Decode inp = Inr (records inp)
          \<and> (\<forall>j<p. \<exists>s. switchKind j (records inp ! j) = Inr s) \<longrightarrow>
          (\<exists>e. UnmarshalJSON dst inp = (dst, Some e)
             \<and> (case Value (records inp ! p) of
                   None \<Rightarrow> e = NoValue p
                 | Some v \<Rightarrow>
                     if Kind (records inp ! p) \<in> set stringKinds
                     then e = WantedString p (typeName v)
                     else (case v of
                             ANumber n \<Rightarrow> \<exists>err. e = BadInt64 p n err
                           | _ \<Rightarrow> e = WantedNumber p (typeName v)))))
     \<and> (\<forall>n. CHR ''.'' \<in> set n \<longrightarrow> \<not> fitsInt64 n)"
proof -
  let ?g = "records inp ! p"
  have si: "Kind ?g \<in> set stringKinds \<Longrightarrow> Kind ?g \<notin> set indexKinds"
    by (auto simp: stringKinds_def indexKinds_def)
  have "\<exists>e. switchKind p ?g = Inl e
          \<and> (case Value ?g of
                None \<Rightarrow> e = NoValue p
              | Some v \<Rightarrow>
                  if Kind ?g \<in> set stringKinds then e = WantedString p (typeName v)
                  else (case v of
                          ANumber n \<Rightarrow> \<exists>err. e = BadInt64 p n err
                        | _ \<Rightarrow> e = WantedNumber p (typeName v)))"
  proof (cases "Value ?g")
    case None
    with k show ?thesis using switchKind_no_value [of ?g p] by simp
  next
    case (Some v)
    show ?thesis
    proof (cases "Kind ?g \<in> set stringKinds")
      case True
      with bad Some si have "\<forall>s. v \<noteq> AString s" by auto
      with True Some show ?thesis using switchKind_wanted_string [of ?g v p] by simp
    next
      case False
      with k have ik: "Kind ?g \<in> set indexKinds" by simp
      show ?thesis
      proof (cases "\<exists>n. v = ANumber n")
        case True
        then obtain n where n: "v = ANumber n" by blast
        with bad Some False have "\<not> fitsInt64 n" by auto
        with ik Some n False show ?thesis using switchKind_bad_int [of ?g n p] by auto
      next
        case nn: False
        then have "\<forall>n. v \<noteq> ANumber n" by simp
        with ik Some False show ?thesis
          using switchKind_wanted_number [of ?g v p] by (cases v) auto
      qed
    qed
  qed
  then obtain e where e: "switchKind p ?g = Inl e"
    and shape: "(case Value ?g of
                None \<Rightarrow> e = NoValue p
              | Some v \<Rightarrow>
                  if Kind ?g \<in> set stringKinds then e = WantedString p (typeName v)
                  else (case v of
                          ANumber n \<Rightarrow> \<exists>err. e = BadInt64 p n err
                        | _ \<Rightarrow> e = WantedNumber p (typeName v)))"
    by blast
  from UnmarshalJSON_fails_records [OF p e]
  have any: "\<exists>e. UnmarshalJSON dst inp = (dst, Some e)" .
  have first: "Decode inp = Inr (records inp)
                 \<and> (\<forall>j<p. \<exists>s. switchKind j (records inp ! j) = Inr s) \<longrightarrow>
                 UnmarshalJSON dst inp = (dst, Some e)"
    using UnmarshalJSON_first [OF _ p e] by blast
  have frac: "\<forall>n. CHR ''.'' \<in> set n \<longrightarrow> \<not> fitsInt64 n"
    using fraction_not_fits by blast
  from any first shape frac show ?thesis by blast
qed

theorem value_checked_per_kind_witness:
  \<open>records ''[{"kind":"body"},{"kind":"array_index","value":1.5}]''
      = [\<lparr>Kind = ''body'', Value = None\<rparr>,
         \<lparr>Kind = ''array_index'', Value = Some (ANumber ''1.5'')\<rparr>]
   \<and> Decode ''[{"kind":"body"},{"kind":"array_index","value":1.5}]''
      = Inr (records ''[{"kind":"body"},{"kind":"array_index","value":1.5}]'')
   \<and> \<not> fitsInt64 ''1.5''
   \<and> UnmarshalJSON [BodyStep] ''[{"kind":"body"},{"kind":"array_index","value":1.5}]''
        = ([BodyStep], Some (BadInt64 1 ''1.5'' ErrSyntax))\<close>
proof -
  let ?inp = \<open>''[{"kind":"body"},{"kind":"array_index","value":1.5}]''\<close>
  let ?gs = "[\<lparr>Kind = ''body'', Value = None\<rparr>,
              \<lparr>Kind = ''array_index'', Value = Some (ANumber ''1.5'')\<rparr>]"
  have d: "Decode ?inp = Inr ?gs" by code_simp
  have r: "records ?inp = ?gs" by (rule Decode_records [OF d])
  have p: "1 < length (records ?inp)" by (simp add: r)
  have k: "Kind (records ?inp ! 1) \<in> set stringKinds \<union> set indexKinds"
    by (simp add: r indexKinds_def)
  have nf: "\<not> fitsInt64 ''1.5''" by (rule fraction_not_fits) simp
  have bad: "Value (records ?inp ! 1) = None
     \<or> (Kind (records ?inp ! 1) \<in> set stringKinds
          \<and> (\<forall>s. Value (records ?inp ! 1) \<noteq> Some (AString s)))
     \<or> (Kind (records ?inp ! 1) \<in> set indexKinds
         \<and> (\<forall>n. Value (records ?inp ! 1) = Some (ANumber n) \<longrightarrow> \<not> fitsInt64 n))"
    using nf by (simp add: r indexKinds_def)
  have b: "\<forall>j<(1::nat). \<exists>s. switchKind j (records ?inp ! j) = Inr s"
    by (simp add: r switchKind_def)
  have i: "Int64 ''1.5'' = Inl ErrSyntax"
    by (simp add: Int64_def ParseInt_def ParseUint_def isDigit_def digitVal_def)
  have u: "UnmarshalJSON [BodyStep] ?inp = ([BodyStep], Some (BadInt64 1 ''1.5'' ErrSyntax))"
    by (simp add: UnmarshalJSON_def d switchKind_def i AddStep_def)
  from value_checked_per_kind [OF p k bad, of "[BodyStep]"] b d r nf u
  show ?thesis by simp
qed

text \<open>
  Claim C5 as worded fails when an earlier record is rejected first, and when the decoder
  reports an error of its own: the call then returns that error, not the one of the record
  without a value.
\<close>

theorem missing_value_behind_other_error:
  \<open>records ''[{"kind":"bogus"},{"kind":"header"}]''
      = [\<lparr>Kind = ''bogus'', Value = None\<rparr>, \<lparr>Kind = ''header'', Value = None\<rparr>]
   \<and> UnmarshalJSON [] ''[{"kind":"bogus"},{"kind":"header"}]''
        = ([], Some (UnexpectedKind 0 ''bogus'' ''*interface {}''))
   \<and> records ''[{"kind":"header"},{"kind":5}]''
      = [\<lparr>Kind = ''header'', Value = None\<rparr>, \<lparr>Kind = [], Value = None\<rparr>]
   \<and> UnmarshalJSON [] ''[{"kind":"header"},{"kind":5}]''
        = ([], Some (JSONError (UnmarshalTypeError ''number'' ''string'')))\<close>
proof -
  have d: \<open>Decode ''[{"kind":"bogus"},{"kind":"header"}]''
      = Inr [\<lparr>Kind = ''bogus'', Value = None\<rparr>, \<lparr>Kind = ''header'', Value = None\<rparr>]\<close>
    by code_simp
  have u: \<open>UnmarshalJSON [] ''[{"kind":"bogus"},{"kind":"header"}]''
        = ([], Some (UnexpectedKind 0 ''bogus'' ''*interface {}''))\<close>
    by code_simp
  have r2: \<open>records ''[{"kind":"header"},{"kind":5}]''
      = [\<lparr>Kind = ''header'', Value = None\<rparr>, \<lparr>Kind = [], Value = None\<rparr>]\<close>
    by code_simp
  have d2: \<open>Decode ''[{"kind":"header"},{"kind":5}]''
      = Inl (UnmarshalTypeError ''number'' ''string'')\<close>
    by code_simp
  from Decode_records [OF d] u r2 UnmarshalJSON_decoder_error [OF d2, of "[]"]
  show ?thesis by simp
qed

lemma UnmarshalJSON_cases:
  "(\<exists>je. Decode inp = Inl je \<and> UnmarshalJSON dst inp = (dst, Some (JSONError je)))
   \<or> (\<exists>gs e. Decode inp = Inr gs \<and> unmarshalLoop 0 gs [] = Inl e
         \<and> UnmarshalJSON dst inp = (dst, Some e))
   \<or> (\<exists>gs r. Decode inp = Inr gs \<and> unmarshalLoop 0 gs [] = Inr r
         \<and> UnmarshalJSON dst inp = (r, None))"
  by (auto simp: UnmarshalJSON_def split: sum.splits)

lemma UnmarshalJSON_success:
  assumes "UnmarshalJSON dst inp = (res, None)"
  shows "\<exists>gs. Decode inp = Inr gs \<and> length res = length gs
           \<and> (\<forall>i<length gs. switchKind i (gs ! i) = Inr (res ! i))"
proof -
  from UnmarshalJSON_cases [of inp dst] assms
  obtain gs where d: "Decode inp = Inr gs" and l: "unmarshalLoop 0 gs [] = Inr res"
    by auto
  from unmarshalLoop_Inr [OF l] d show ?thesis by auto
qed

text \<open>
  Claim C6, as the code has it: a call either returns no error, and then every record has
  become the step of its own kind, in order, none skipped; or it returns an error and leaves
  behind the receiver what was there. The error is the decoder's when the decoder reports
  one, and only otherwise that of the first record the loop rejects.
\<close>

theorem decode_all_or_nothing:
  assumes "UnmarshalJSON dst inp = (res, err)"
  shows "case err of
           None \<Rightarrow>
             (\<exists>gs. Decode inp = Inr gs \<and> length res = length gs
                \<and> (\<forall>i<length gs. switchKind i (gs ! i) = Inr (res ! i)
                       \<and> stepKind (res ! i) = Kind (gs ! i) \<and> Kind (gs ! i) \<in> set knownKinds))
         | Some e \<Rightarrow>
             res = dst
             \<and> ((\<exists>je. Decode inp = Inl je \<and> e = JSONError je)
                \<or> (\<exists>gs p. Decode inp = Inr gs \<and> p < length gs
                       \<and> switchKind p (gs ! p) = Inl e
                       \<and> (\<forall>j<p. \<exists>s. switchKind j (gs ! j) = Inr s)))"
proof -
  from UnmarshalJSON_cases [of inp dst]
  consider (parse) je where "Decode inp = Inl je" "UnmarshalJSON dst inp = (dst, Some (JSONError je))"
    | (bad) gs e where "Decode inp = Inr gs" "unmarshalLoop 0 gs [] = Inl e"
        "UnmarshalJSON dst inp = (dst, Some e)"
    | (good) gs r where "Decode inp = Inr gs" "unmarshalLoop 0 gs [] = Inr r"
        "UnmarshalJSON dst inp = (r, None)"
    by blast
  then show ?thesis
  proof cases
    case parse
    with assms show ?thesis by auto
  next
    case bad
    from unmarshalLoop_Inl [OF bad(2)] obtain p where "p < length gs"
      "switchKind p (gs ! p) = Inl e" "\<forall>j<p. \<exists>s. switchKind j (gs ! j) = Inr s"
      by auto
    with bad assms show ?thesis by auto
  next
    case good
    from unmarshalLoop_Inr [OF good(2)] have len: "length r = length gs"
      and each: "\<forall>i<length gs. switchKind i (gs ! i) = Inr (r ! i)"
      by auto
    have "\<forall>i<length gs. switchKind i (gs ! i) = Inr (r ! i)
             \<and> stepKind (r ! i) = Kind (gs ! i) \<and> Kind (gs ! i) \<in> set knownKinds"
      using each switchKind_Inr by blast
    with good len assms show ?thesis by auto
  qed
qed

theorem decode_all_or_nothing_witness:
  \<open>UnmarshalJSON [URLParamStep ''old''] ''[{"kind":"body"},{"kind":"header"},{"kind":"bogus"}]''
      = ([URLParamStep ''old''], Some (NoValue 1))
   \<and> (\<exists>gs p. Decode ''[{"kind":"body"},{"kind":"header"},{"kind":"bogus"}]'' = Inr gs
         \<and> p < length gs \<and> switchKind p (gs ! p) = Inl (NoValue 1)
         \<and> (\<forall>j<p. \<exists>s. switchKind j (gs ! j) = Inr s))\<close>
proof -
  have u: \<open>UnmarshalJSON [URLParamStep ''old''] ''[{"kind":"body"},{"kind":"header"},{"kind":"bogus"}]''
      = ([URLParamStep ''old''], Some (NoValue 1))\<close>
    by code_simp
  have "\<forall>je. NoValue 1 \<noteq> JSONError je" by simp
  with decode_all_or_nothing [OF u] u show ?thesis by simp
qed

text \<open>
  Claim C6 as worded fails where the decoder reports an error for a later record: the
  records are read from left to right and the first has an unknown kind, which the loop
  would reject, but the loop is never reached and the call returns the decoder's error for
  the second record.
\<close>

theorem decoder_error_before_rejected_record:
  \<open>records ''[{"kind":"bogus"},{"kind":5}]''
      = [\<lparr>Kind = ''bogus'', Value = None\<rparr>, \<lparr>Kind = [], Value = None\<rparr>]
   \<and> switchKind 0 (records ''[{"kind":"bogus"},{"kind":5}]'' ! 0)
      = Inl (UnexpectedKind 0 ''bogus'' ''*interface {}'')
   \<and> unmarshalLoop 0 (records ''[{"kind":"bogus"},{"kind":5}]'') []
      = Inl (UnexpectedKind 0 ''bogus'' ''*interface {}'')
   \<and> Decode ''[{"kind":"bogus"},{"kind":5}]'' = Inl (UnmarshalTypeError ''number'' ''string'')
   \<and> UnmarshalJSON [BodyStep] ''[{"kind":"bogus"},{"kind":5}]''
        = ([BodyStep], Some (JSONError (UnmarshalTypeError ''number'' ''string'')))\<close>
proof -
  let ?inp = \<open>''[{"kind":"bogus"},{"kind":5}]''\<close>
  have r: "records ?inp = [\<lparr>Kind = ''bogus'', Value = None\<rparr>, \<lparr>Kind = [], Value = None\<rparr>]"
    by code_simp
  have d: "Decode ?inp = Inl (UnmarshalTypeError ''number'' ''string'')"
    by code_simp
  have s: "switchKind 0 (records ?inp ! 0) = Inl (UnexpectedKind 0 ''bogus'' ''*interface {}'')"
    by (simp add: r switchKind_def)
  have l: "unmarshalLoop 0 (records ?inp) [] = Inl (UnexpectedKind 0 ''bogus'' ''*interface {}'')"
    by (simp add: r switchKind_def)
  from r d s l UnmarshalJSON_decoder_error [OF d, of "[BodyStep]"] show ?thesis by simp
qed

lemma storeSlice_body_value:
  "storeSlice (JArray [JObject [(''kind'', JString ''body''), (''value'', v)]])
     = ([\<lparr>Kind = ''body'', Value = (if v = JNull then None else Some (valueInterface v))\<rparr>], None)"
proof -
  have fk: "foldName ''kind'' = ''KIND''" by code_simp
  have fv: "foldName ''value'' = ''VALUE''" by code_simp
  show ?thesis
    by (cases v) (simp_all add: storeSlice_def storeElem_def storeMember_def fk fv del: foldName.simps)
qed

lemma storeSlice_body_only:
  "storeSlice (JArray [JObject [(''kind'', JString ''body'')]])
     = ([\<lparr>Kind = ''body'', Value = None\<rparr>], None)"
proof -
  have fk: "foldName ''kind'' = ''KIND''" by code_simp
  show ?thesis
    by (simp add: storeSlice_def storeElem_def storeMember_def fk del: foldName.simps)
qed

text \<open>
  Claim C8: a record of kind \<open>body\<close> becomes \<open>BodyStep\<close> whatever its value field
  holds, and an object with that kind is stored and decoded without error whether the value
  member is there or not and whatever JSON value it is.
\<close>

theorem body_value_not_consulted:
  "(Kind g = ''body'' \<longrightarrow>
      switchKind pos g = Inr BodyStep
      \<and> unmarshalLoop pos (g # rest) acc = unmarshalLoop (pos + 1) rest (acc @ [BodyStep]))
   \<and> snd (storeSlice (JArray [JObject [(''kind'', JString ''body''), (''value'', v)]])) = None
   \<and> unmarshalLoop 0
        (fst (storeSlice (JArray [JObject [(''kind'', JString ''body''), (''value'', v)]]))) []
       = Inr [BodyStep]
   \<and> snd (storeSlice (JArray [JObject [(''kind'', JString ''body'')]])) = None
   \<and> unmarshalLoop 0 (fst (storeSlice (JArray [JObject [(''kind'', JString ''body'')]]))) []
       = Inr [BodyStep]"
proof -
  have rec: "Kind g = ''body'' \<longrightarrow>
      switchKind pos g = Inr BodyStep
      \<and> unmarshalLoop pos (g # rest) acc = unmarshalLoop (pos + 1) rest (acc @ [BodyStep])"
    by (simp add: switchKind_body AddStep_def)
  have with_value:
    "snd (storeSlice (JArray [JObject [(''kind'', JString ''body''), (''value'', v)]])) = None
     \<and> unmarshalLoop 0
          (fst (storeSlice (JArray [JObject [(''kind'', JString ''body''), (''value'', v)]]))) []
         = Inr [BodyStep]"
    by (simp add: storeSlice_body_value switchKind_body AddStep_def)
  have without_value:
    "snd (storeSlice (JArray [JObject [(''kind'', JString ''body'')]])) = None
     \<and> unmarshalLoop 0 (fst (storeSlice (JArray [JObject [(''kind'', JString ''body'')]]))) []
         = Inr [BodyStep]"
    by (simp add: storeSlice_body_only switchKind_body AddStep_def)
  from rec with_value without_value show ?thesis by blast
qed

theorem body_value_not_consulted_witness:
  \<open>Kind \<lparr>Kind = ''body'', Value = Some (ABool True)\<rparr> = ''body''
   \<and> switchKind 3 \<lparr>Kind = ''body'', Value = Some (ABool True)\<rparr> = Inr BodyStep
   \<and> unmarshalLoop 3 [\<lparr>Kind = ''body'', Value = Some (ABool True)\<rparr>] [HeaderStep ''h'']
        = Inr [HeaderStep ''h'', BodyStep]
   \<and> UnmarshalJSON [] ''[{"kind":"body","value":{"a":[1,null,"x"]}}]'' = ([BodyStep], None)\<close>
proof -
  have u: \<open>UnmarshalJSON [] ''[{"kind":"body","value":{"a":[1,null,"x"]}}]'' = ([BodyStep], None)\<close>
    by code_simp
  from body_value_not_consulted [of "\<lparr>Kind = ''body'', Value = Some (ABool True)\<rparr>" 3 "[]"
      "[HeaderStep ''h'']" JNull] u
  show ?thesis by (simp add: AddStep_def)
qed

text \<open>
  Claim C10, as the code has it: an index record whose number \<open>ParseInt\<close> does not
  read as an \<open>int64\<close> makes the decode fail, with the error of \<open>ParseInt\<close> at its
  position when the decoder itself has reported no error and no record before it is
  rejected, a range error when the literal is a sign and digits. \<open>fitsInt64\<close> holds of
  such literals with a value in range only, so every literal of an integer beyond
  \<open>int64\<close> is among those rejected. Every index payload of a successful decode is the
  exact value of its literal.
\<close>

theorem index_beyond_int64:
  "(\<forall>p n. p < length (records inp) \<and> Kind (records inp ! p) \<in> set indexKinds
            \<and> Value (records inp ! p) = Some (ANumber n) \<and> \<not> fitsInt64 n
          \<longrightarrow> (\<exists>e. UnmarshalJSON dst inp = (dst, Some e))
              \<and> (Decode inp = Inr (records inp)
                   \<and> (\<forall>j<p. \<exists>s. switchKind j (records inp ! j) = Inr s) \<longrightarrow>
                   (\<exists>err. UnmarshalJSON dst inp = (dst, Some (BadInt64 p n err))
                      \<and> (signedDigits n \<longrightarrow> err = ErrRange))))
     \<and> (\<forall>res i. UnmarshalJSON dst inp = (res, None) \<and> i < length (records inp)
            \<and> Kind (records inp ! i) \<in> set indexKinds
          \<longrightarrow> (\<exists>n w. Value (records inp ! i) = Some (ANumber n) \<and> signedDigits n
                   \<and> sint w = literalValue n
                   \<and> res ! i \<in> {ArrayIndexStep w, StringIndexStep w}))"
proof (intro conjI allI impI)
  fix p n
  assume h: "p < length (records inp) \<and> Kind (records inp ! p) \<in> set indexKinds
            \<and> Value (records inp ! p) = Some (ANumber n) \<and> \<not> fitsInt64 n"
  from h switchKind_bad_int [of "records inp ! p" n p]
  obtain err where e: "switchKind p (records inp ! p) = Inl (BadInt64 p n err)"
    and r: "signedDigits n \<longrightarrow> err = ErrRange"
    by auto
  from h have p: "p < length (records inp)" by simp
  from UnmarshalJSON_fails_records [OF p e]
  show "\<exists>e. UnmarshalJSON dst inp = (dst, Some e)" .
  assume a: "Decode inp = Inr (records inp)
               \<and> (\<forall>j<p. \<exists>s. switchKind j (records inp ! j) = Inr s)"
  then have d: "Decode inp = Inr (records inp)"
    and b: "\<forall>j<p. \<exists>s. switchKind j (records inp ! j) = Inr s" by simp_all
  from UnmarshalJSON_first [OF d p e b] r
  show "\<exists>err. UnmarshalJSON dst inp = (dst, Some (BadInt64 p n err))
          \<and> (signedDigits n \<longrightarrow> err = ErrRange)"
    by blast
next
  fix res i
  assume h: "UnmarshalJSON dst inp = (res, None) \<and> i < length (records inp)
               \<and> Kind (records inp ! i) \<in> set indexKinds"
  from UnmarshalJSON_success [of dst inp res] h
  obtain gs where d: "Decode inp = Inr gs"
    and each: "\<forall>i<length gs. switchKind i (gs ! i) = Inr (res ! i)" by auto
  from Decode_records [OF d] have g: "gs = records inp" by simp
  from each h g have "switchKind i (records inp ! i) = Inr (res ! i)" by auto
  from switchKind_Inr [OF this] h
  show "\<exists>n w. Value (records inp ! i) = Some (ANumber n) \<and> signedDigits n
           \<and> sint w = literalValue n
           \<and> res ! i \<in> {ArrayIndexStep w, StringIndexStep w}"
    by (auto simp: fitsInt64_def)
qed

theorem index_beyond_int64_witness:
  \<open>records ''[{"kind":"string_index","value":9223372036854775808}]''
      = [\<lparr>Kind = ''string_index'', Value = Some (ANumber ''9223372036854775808'')\<rparr>]
   \<and> Decode ''[{"kind":"string_index","value":9223372036854775808}]''
      = Inr (records ''[{"kind":"string_index","value":9223372036854775808}]'')
   \<and> signedDigits ''9223372036854775808''
   \<and> 9223372036854775808 \<le> literalValue ''9223372036854775808''
   \<and> UnmarshalJSON [BodyStep] ''[{"kind":"string_index","value":9223372036854775808}]''
        = ([BodyStep], Some (BadInt64 0 ''9223372036854775808'' ErrRange))
   \<and> UnmarshalJSON [BodyStep] ''[{"kind":"array_index","value":9007199254740993}]''
        = ([ArrayIndexStep 9007199254740993], None)
   \<and> (\<exists>w. [ArrayIndexStep 9007199254740993] ! 0 \<in> {ArrayIndexStep w, StringIndexStep w}
          \<and> sint w = 9007199254740993)\<close>
proof -
  let ?inp = \<open>''[{"kind":"string_index","value":9223372036854775808}]''\<close>
  let ?n = "''9223372036854775808''"
  let ?gs = "[\<lparr>Kind = ''string_index'', Value = Some (ANumber ?n)\<rparr>]"
  have d: "Decode ?inp = Inr ?gs" by code_simp
  have r: "records ?inp = ?gs" by (rule Decode_records [OF d])
  have dr: "Decode ?inp = Inr (records ?inp)" by (simp only: d r)
  have sd: "signedDigits ?n" by (simp add: signedDigits_def isDigit_def)
  have lv: "literalValue ?n = 9223372036854775808"
    by (simp add: literalValue_def decValue_def digitVal_def)
  have h: "(0::nat) < length (records ?inp) \<and> Kind (records ?inp ! 0) \<in> set indexKinds
            \<and> Value (records ?inp ! 0) = Some (ANumber ?n) \<and> \<not> fitsInt64 ?n"
    using sd lv by (simp add: r indexKinds_def fitsInt64_def)
  have b: "\<forall>j<(0::nat). \<exists>s. switchKind j (records ?inp ! j) = Inr s" by simp
  from index_beyond_int64 [of ?inp "[BodyStep]"] h sd dr b
  have u: "UnmarshalJSON [BodyStep] ?inp = ([BodyStep], Some (BadInt64 0 ?n ErrRange))"
    by blast
  let ?inp2 = \<open>''[{"kind":"array_index","value":9007199254740993}]''\<close>
  let ?m = "''9007199254740993''"
  let ?hs = "[\<lparr>Kind = ''array_index'', Value = Some (ANumber ?m)\<rparr>]"
  have d2: "Decode ?inp2 = Inr ?hs" by code_simp
  have r2: "records ?inp2 = ?hs" by (rule Decode_records [OF d2])
  have lm: "literalValue ?m = 9007199254740993"
    by (simp add: literalValue_def decValue_def digitVal_def)
  have i2: "Int64 ?m = Inr 9007199254740993"
    by (simp add: Int64_def ParseInt_def ParseUint_def isDigit_def digitVal_def)
  have u2: "UnmarshalJSON [BodyStep] ?inp2 = ([ArrayIndexStep 9007199254740993], None)"
    by (simp add: UnmarshalJSON_def d2 switchKind_def i2 AddStep_def)
  have h2: "UnmarshalJSON [BodyStep] ?inp2 = ([ArrayIndexStep 9007199254740993], None)
            \<and> (0::nat) < length (records ?inp2)
            \<and> Kind (records ?inp2 ! 0) \<in> set indexKinds"
    using u2 by (simp add: r2 indexKinds_def)
  from index_beyond_int64 [of ?inp2 "[BodyStep]"] h2
  have "\<exists>n w. Value (records ?inp2 ! 0) = Some (ANumber n) \<and> signedDigits n
           \<and> sint w = literalValue n
           \<and> [ArrayIndexStep 9007199254740993] ! 0 \<in> {ArrayIndexStep w, StringIndexStep w}"
    by blast
  then have e: "\<exists>w. [ArrayIndexStep 9007199254740993] ! 0 \<in> {ArrayIndexStep w, StringIndexStep w}
          \<and> sint w = 9007199254740993"
    using lm by (auto simp: r2)
  from r dr sd lv u u2 e show ?thesis by simp
qed

text \<open>
  Claim C10 as worded fails when an earlier record is rejected first, and when the decoder
  reports an error of its own for another record: the error returned is then not the one
  of the index record.
\<close>

theorem range_error_behind_other_error:
  \<open>records ''[{"kind":"bogus"},{"kind":"array_index","value":9223372036854775808}]''
      = [\<lparr>Kind = ''bogus'', Value = None\<rparr>,
         \<lparr>Kind = ''array_index'', Value = Some (ANumber ''9223372036854775808'')\<rparr>]
   \<and> signedDigits ''9223372036854775808''
   \<and> literalValue ''9223372036854775808'' = 9223372036854775808
   \<and> UnmarshalJSON [] ''[{"kind":"bogus"},{"kind":"array_index","value":9223372036854775808}]''
        = ([], Some (UnexpectedKind 0 ''bogus'' ''*interface {}''))
   \<and> records ''[{"kind":"array_index","value":9223372036854775808},{"kind":5}]''
      = [\<lparr>Kind = ''array_index'', Value = Some (ANumber ''9223372036854775808'')\<rparr>,
         \<lparr>Kind = [], Value = None\<rparr>]
   \<and> UnmarshalJSON [] ''[{"kind":"array_index","value":9223372036854775808},{"kind":5}]''
        = ([], Some (JSONError (UnmarshalTypeError ''number'' ''string'')))\<close>
proof -
  have d: \<open>Decode ''[{"kind":"bogus"},{"kind":"array_index","value":9223372036854775808}]''
      = Inr [\<lparr>Kind = ''bogus'', Value = None\<rparr>,
             \<lparr>Kind = ''array_index'', Value = Some (ANumber ''9223372036854775808'')\<rparr>]\<close>
    by code_simp
  have sd: "signedDigits ''9223372036854775808''" by (simp add: signedDigits_def isDigit_def)
  have lv: "literalValue ''9223372036854775808'' = 9223372036854775808"
    by (simp add: literalValue_def decValue_def digitVal_def)
  have u: \<open>UnmarshalJSON [] ''[{"kind":"bogus"},{"kind":"array_index","value":9223372036854775808}]''
        = ([], Some (UnexpectedKind 0 ''bogus'' ''*interface {}''))\<close>
    by (simp add: UnmarshalJSON_def d switchKind_def)
  have r2: \<open>records ''[{"kind":"array_index","value":9223372036854775808},{"kind":5}]''
      = [\<lparr>Kind = ''array_index'', Value = Some (ANumber ''9223372036854775808'')\<rparr>,
         \<lparr>Kind = [], Value = None\<rparr>]\<close>
    by code_simp
  have d2: \<open>Decode ''[{"kind":"array_index","value":9223372036854775808},{"kind":5}]''
      = Inl (UnmarshalTypeError ''number'' ''string'')\<close>
    by code_simp
  from Decode_records [OF d] sd lv u r2 UnmarshalJSON_decoder_error [OF d2, of "[]"]
  show ?thesis by simp
qed

subsection \<open>UTF-8\<close>

lemma mod_off:
  fixes a :: nat
  assumes "q * m \<le> a" "a < q * m + m"
  shows "a mod m = a - q * m"
proof -
  define x where "x = a - q * m"
  from assms have a: "a = q * m + x" and x: "x < m" by (simp_all add: x_def)
  have "(q * m + x) mod m = x mod m" by (rule mod_mult_self3)
  with a x show ?thesis by simp
qed

lemma m32: "192 \<le> (a::nat) \<Longrightarrow> a \<le> 223 \<Longrightarrow> a mod 32 = a - 192"
  using mod_off [of 6 32 a] by simp

lemma m64: "128 \<le> (b::nat) \<Longrightarrow> b \<le> 191 \<Longrightarrow> b mod 64 = b - 128"
  using mod_off [of 2 64 b] by simp

lemma m16: "224 \<le> (a::nat) \<Longrightarrow> a \<le> 239 \<Longrightarrow> a mod 16 = a - 224"
  using mod_off [of 14 16 a] by simp

lemma m8: "240 \<le> (a::nat) \<Longrightarrow> a \<le> 247 \<Longrightarrow> a mod 8 = a - 240"
  using mod_off [of 30 8 a] by simp

lemma dm1: "(j::nat) < m \<Longrightarrow> (k * m + j) div m = k \<and> (k * m + j) mod m = j"
  by simp

lemma dm3:
  assumes i: "(i::nat) < 64" and j: "j < 64"
  shows "(k * 4096 + i * 64 + j) div 4096 = k \<and> ((k * 4096 + i * 64 + j) div 64) mod 64 = i
     \<and> (k * 4096 + i * 64 + j) mod 64 = j"
proof -
  let ?r = "k * 4096 + i * 64 + j"
  have e: "?r = (k * 64 + i) * 64 + j" by simp
  have a: "?r div 64 = k * 64 + i" using dm1 [OF j, of "k * 64 + i"] e by presburger
  have b: "?r mod 64 = j" using dm1 [OF j, of "k * 64 + i"] e by presburger
  have lt: "i * 64 + j < 4096" using i j by simp
  have e2: "?r = k * 4096 + (i * 64 + j)" by simp
  have c: "?r div 4096 = k" using dm1 [OF lt, of k] e2 by presburger
  have d: "(k * 64 + i) mod 64 = i" using dm1 [OF i, of k] by simp
  from a b c d show ?thesis by simp
qed

lemma dm4:
  assumes h: "(h::nat) < 64" and i: "i < 64" and j: "j < 64"
  shows "(k * 262144 + h * 4096 + i * 64 + j) div 262144 = k
     \<and> ((k * 262144 + h * 4096 + i * 64 + j) div 4096) mod 64 = h
     \<and> ((k * 262144 + h * 4096 + i * 64 + j) div 64) mod 64 = i
     \<and> (k * 262144 + h * 4096 + i * 64 + j) mod 64 = j"
proof -
  let ?r = "k * 262144 + h * 4096 + i * 64 + j"
  have e: "?r = ((k * 64 + h) * 64 + i) * 64 + j" by simp
  have a: "?r div 64 = (k * 64 + h) * 64 + i"
    using dm1 [OF j, of "(k * 64 + h) * 64 + i"] e by presburger
  have b: "?r mod 64 = j" using dm1 [OF j, of "(k * 64 + h) * 64 + i"] e by presburger
  have a': "((k * 64 + h) * 64 + i) mod 64 = i" using dm1 [OF i, of "k * 64 + h"] by simp
  have e2: "?r = (k * 64 + h) * 4096 + (i * 64 + j)" by simp
  have lt: "i * 64 + j < 4096" using i j by simp
  have c: "?r div 4096 = k * 64 + h" using dm1 [OF lt, of "k * 64 + h"] e2 by presburger
  have c': "(k * 64 + h) mod 64 = h" using dm1 [OF h, of k] by simp
  have e3: "?r = k * 262144 + (h * 4096 + i * 64 + j)" by simp
  have lt3: "h * 4096 + i * 64 + j < 262144" using h i j by simp
  have d: "?r div 262144 = k" using dm1 [OF lt3, of k] e3 by presburger
  from a a' b c c' d show ?thesis by simp
qed

subsection \<open>DecodeRune by the class of the first byte\<close>

lemma DecodeRune_ascii: "(of_char c :: nat) < 0x80 \<Longrightarrow> DecodeRune (c # cs) = (of_char c, 1)"
  by simp

lemma DecodeRune_bad_lead:
  "0x80 \<le> (of_char c :: nat) \<Longrightarrow> (of_char c :: nat) < 0xC2 \<or> 0xF4 < (of_char c :: nat) \<Longrightarrow>
     DecodeRune (c # cs) = (RuneError, 1)"
  by (auto simp: Let_def)

lemma DecodeRune_2:
  "0xC2 \<le> (of_char c :: nat) \<Longrightarrow> (of_char c :: nat) < 0xE0 \<Longrightarrow>
     DecodeRune (c # cs) =
       (case cs of
          [] \<Rightarrow> (RuneError, 1)
        | c1 # r \<Rightarrow>
            if (of_char c1 :: nat) < 0x80 \<or> 0xBF < (of_char c1 :: nat) then (RuneError, 1)
            else ((of_char c mod 32) * 64 + of_char c1 mod 64, 2))"
  by (cases cs) (simp_all add: Let_def)

lemma DecodeRune_3:
  "0xE0 \<le> (of_char c :: nat) \<Longrightarrow> (of_char c :: nat) < 0xF0 \<Longrightarrow>
     DecodeRune (c # cs) =
       (case cs of
          c1 # c2 # r \<Rightarrow>
            if (of_char c1 :: nat) < (if (of_char c :: nat) = 0xE0 then 0xA0 else 0x80)
               \<or> (if (of_char c :: nat) = 0xED then 0x9F else 0xBF) < (of_char c1 :: nat)
            then (RuneError, 1)
            else if (of_char c2 :: nat) < 0x80 \<or> 0xBF < (of_char c2 :: nat) then (RuneError, 1)
            else ((of_char c mod 16) * 4096 + (of_char c1 mod 64) * 64 + of_char c2 mod 64, 3)
        | _ \<Rightarrow> (RuneError, 1))"
  by (cases cs; cases "tl cs") (auto simp: Let_def)

lemma DecodeRune_4:
  "0xF0 \<le> (of_char c :: nat) \<Longrightarrow> (of_char c :: nat) \<le> 0xF4 \<Longrightarrow>
     DecodeRune (c # cs) =
       (case cs of
          c1 # c2 # c3 # r \<Rightarrow>
            if (of_char c1 :: nat) < (if (of_char c :: nat) = 0xF0 then 0x90 else 0x80)
               \<or> (if (of_char c :: nat) = 0xF4 then 0x8F else 0xBF) < (of_char c1 :: nat)
            then (RuneError, 1)
            else if (of_char c2 :: nat) < 0x80 \<or> 0xBF < (of_char c2 :: nat) then (RuneError, 1)
            else if (of_char c3 :: nat) < 0x80 \<or> 0xBF < (of_char c3 :: nat) then (RuneError, 1)
            else ((of_char c mod 8) * 262144 + (of_char c1 mod 64) * 4096
                    + (of_char c2 mod 64) * 64 + of_char c3 mod 64, 4)
        | _ \<Rightarrow> (RuneError, 1))"
  by (cases cs; cases "tl cs"; cases "tl (tl cs)") (auto simp: Let_def)

declare DecodeRune.simps(2) [simp del]

lemma enc2:
  fixes a b :: nat
  assumes "194 \<le> a" "a < 224" "128 \<le> b" "b \<le> 191"
  shows "EncodeRune ((a mod 32) * 64 + b mod 64) = [char_of a, char_of b]"
proof -
  define k where "k = a - 192"
  define j where "j = b - 128"
  from assms have a: "a = 192 + k" and k: "2 \<le> k" "k < 32" by (simp_all add: k_def)
  from assms have b: "b = 128 + j" and j: "j < 64" by (simp_all add: j_def)
  have ma: "a mod 32 = k" using m32 [of a] assms by (simp add: k_def)
  have mb: "b mod 64 = j" using m64 [of b] assms by (simp add: j_def)
  let ?r = "k * 64 + j"
  have d: "?r div 64 = k" "?r mod 64 = j" using dm1 [OF j, of k] by simp_all
  have lo: "\<not> ?r \<le> 0x7F" using k by simp
  have hi: "?r \<le> 0x7FF" using k j by simp
  show ?thesis
    unfolding ma mb EncodeRune_def using lo hi d a b by (simp add: add.commute)
qed

lemma enc3:
  fixes a b c :: nat
  assumes "224 \<le> a" "a < 240" "(if a = 224 then 160 else 128) \<le> b"
    "b \<le> (if a = 237 then 159 else 191)" "128 \<le> c" "c \<le> 191"
  shows "EncodeRune ((a mod 16) * 4096 + (b mod 64) * 64 + c mod 64)
           = [char_of a, char_of b, char_of c]"
proof -
  define k where "k = a - 224"
  define i where "i = b - 128"
  define j where "j = c - 128"
  from assms have a: "a = 224 + k" and k: "k < 16" by (simp_all add: k_def)
  from assms have b: "b = 128 + i" and i: "i < 64"
    by (simp_all add: i_def split: if_splits)
  from assms have c: "c = 128 + j" and j: "j < 64" by (simp_all add: j_def)
  have ma: "a mod 16 = k" using m16 [of a] assms by (simp add: k_def)
  have mb: "b mod 64 = i" using m64 [of b] assms by (simp add: i_def split: if_splits)
  have mc: "c mod 64 = j" using m64 [of c] assms by (simp add: j_def)
  let ?r = "k * 4096 + i * 64 + j"
  from dm3 [OF i j, of k]
  have d: "?r div 4096 = k" "(?r div 64) mod 64 = i" "?r mod 64 = j" by simp_all
  have k0: "k = 0 \<Longrightarrow> 32 \<le> i" using assms a b by (simp split: if_splits)
  have k13: "k = 13 \<Longrightarrow> i < 32" using assms a b by (simp split: if_splits)
  have lo: "\<not> ?r \<le> 0x7FF"
  proof (cases "k = 0")
    case True
    with k0 show ?thesis by simp
  next
    case False
    then have "4096 \<le> k * 4096" by simp
    then show ?thesis by simp
  qed
  have hi: "?r \<le> 0xFFFF" using k i j by simp
  have big: "\<not> ?r > 0x10FFFF" using hi by simp
  have ns: "\<not> (0xD800 \<le> ?r \<and> ?r \<le> 0xDFFF)"
  proof (cases "k < 13")
    case True
    then have "k * 4096 \<le> 12 * 4096" by simp
    with i j have "?r < 0xD800" by simp
    then show ?thesis by simp
  next
    case False
    show ?thesis
    proof (cases "k = 13")
      case True
      with k13 have "i < 32" by simp
      with True j have "?r < 0xD800" by simp
      then show ?thesis by simp
    next
      case k14: False
      with False have "14 \<le> k" by simp
      then have "14 * 4096 \<le> k * 4096" by simp
      then have "0xDFFF < ?r" by simp
      then show ?thesis by simp
    qed
  qed
  show ?thesis
    unfolding ma mb mc EncodeRune_def using lo hi big ns d a b c by (simp add: add.commute)
qed

lemma enc4:
  fixes a b c d :: nat
  assumes "240 \<le> a" "a \<le> 244" "(if a = 240 then 144 else 128) \<le> b"
    "b \<le> (if a = 244 then 143 else 191)" "128 \<le> c" "c \<le> 191" "128 \<le> d" "d \<le> 191"
  shows "EncodeRune ((a mod 8) * 262144 + (b mod 64) * 4096 + (c mod 64) * 64 + d mod 64)
           = [char_of a, char_of b, char_of c, char_of d]"
proof -
  define k where "k = a - 240"
  define h where "h = b - 128"
  define i where "i = c - 128"
  define j where "j = d - 128"
  from assms have a: "a = 240 + k" and k: "k \<le> 4" by (simp_all add: k_def)
  from assms have b: "b = 128 + h" and h: "h < 64"
    by (simp_all add: h_def split: if_splits)
  from assms have c: "c = 128 + i" and i: "i < 64" by (simp_all add: i_def)
  from assms have d: "d = 128 + j" and j: "j < 64" by (simp_all add: j_def)
  have ma: "a mod 8 = k" using m8 [of a] assms by (simp add: k_def)
  have mb: "b mod 64 = h" using m64 [of b] assms by (simp add: h_def split: if_splits)
  have mc: "c mod 64 = i" using m64 [of c] assms by (simp add: i_def)
  have md: "d mod 64 = j" using m64 [of d] assms by (simp add: j_def)
  let ?r = "k * 262144 + h * 4096 + i * 64 + j"
  from dm4 [OF h i j, of k]
  have dd: "?r div 262144 = k" "(?r div 4096) mod 64 = h" "(?r div 64) mod 64 = i" "?r mod 64 = j"
    by simp_all
  have k0: "k = 0 \<Longrightarrow> 16 \<le> h" using assms a b by (simp split: if_splits)
  have k4: "k = 4 \<Longrightarrow> h < 16" using assms a b by (simp split: if_splits)
  have lo: "\<not> ?r \<le> 0xFFFF"
  proof (cases "k = 0")
    case True
    with k0 have "16 * 4096 \<le> h * 4096" by simp
    then show ?thesis by simp
  next
    case False
    then have "262144 \<le> k * 262144" by simp
    then show ?thesis by simp
  qed
  have hi: "\<not> ?r > 0x10FFFF"
  proof (cases "k = 4")
    case True
    with k4 have "h * 4096 \<le> 15 * 4096" by simp
    with True i j show ?thesis by simp
  next
    case False
    with k have "k * 262144 \<le> 3 * 262144" by simp
    with h i j show ?thesis by simp
  qed
  have ns: "\<not> (0xD800 \<le> ?r \<and> ?r \<le> 0xDFFF)" using lo by simp
  have l1: "\<not> ?r \<le> 0x7F" "\<not> ?r \<le> 0x7FF" using lo by simp_all
  show ?thesis
    unfolding ma mb mc md EncodeRune_def using lo hi ns l1 dd a b c d by (simp add: add.commute)
qed

lemma DecodeRune_valid:
  assumes hi: "0x80 \<le> (of_char c :: nat)"
    and dec: "DecodeRune (c # cs) = (r, n)"
    and ok: "\<not> (r = RuneError \<and> n = 1)"
  shows "2 \<le> n \<and> n \<le> length (c # cs) \<and> EncodeRune r = take n (c # cs)
         \<and> (\<forall>t. DecodeRune (take n (c # cs) @ t) = (r, n))"
proof -
  let ?a = "of_char c :: nat"
  have lead: "0xC2 \<le> ?a \<and> ?a \<le> 0xF4"
  proof (rule ccontr)
    assume "\<not> (0xC2 \<le> ?a \<and> ?a \<le> 0xF4)"
    then have "?a < 0xC2 \<or> 0xF4 < ?a" by linarith
    from DecodeRune_bad_lead [OF hi this, of cs] dec ok show False by simp
  qed
  consider (two) "?a < 0xE0" | (three) "0xE0 \<le> ?a" "?a < 0xF0" | (four) "0xF0 \<le> ?a"
    by linarith
  then show ?thesis
  proof cases
    case two
    from lead have l: "0xC2 \<le> ?a" by simp
    from DecodeRune_2 [OF l two, of cs] dec ok obtain c1 rest where cs: "cs = c1 # rest"
      and b1: "0x80 \<le> (of_char c1 :: nat)" "(of_char c1 :: nat) \<le> 0xBF"
      and r: "r = (?a mod 32) * 64 + of_char c1 mod 64" and n: "n = 2"
      by (cases cs) (auto split: if_splits)
    have e: "EncodeRune r = [c, c1]"
      unfolding r using enc2 [of ?a "of_char c1"] l two b1 by simp
    have again: "\<And>t. DecodeRune (c # c1 # t) = (r, n)"
      using DecodeRune_2 [OF l two] b1 r n by simp
    from cs n e again show ?thesis by simp
  next
    case three
    from DecodeRune_3 [OF three, of cs] dec ok obtain c1 c2 rest where cs: "cs = c1 # c2 # rest"
      and b1: "(if ?a = 0xE0 then 0xA0 else 0x80) \<le> (of_char c1 :: nat)"
        "(of_char c1 :: nat) \<le> (if ?a = 0xED then 0x9F else 0xBF)"
      and b2: "0x80 \<le> (of_char c2 :: nat)" "(of_char c2 :: nat) \<le> 0xBF"
      and r: "r = (?a mod 16) * 4096 + (of_char c1 mod 64) * 64 + of_char c2 mod 64"
      and n: "n = 3"
      by (cases cs; cases "tl cs") (auto split: if_splits)
    have e: "EncodeRune r = [c, c1, c2]"
      unfolding r using enc3 [of ?a "of_char c1" "of_char c2"] three b1 b2 by simp
    have again: "\<And>t. DecodeRune (c # c1 # c2 # t) = (r, n)"
      using DecodeRune_3 [OF three] b1 b2 r n by (auto split: if_splits)
    from cs n e again show ?thesis by simp
  next
    case four
    from lead have u: "?a \<le> 0xF4" by simp
    from DecodeRune_4 [OF four u, of cs] dec ok obtain c1 c2 c3 rest
      where cs: "cs = c1 # c2 # c3 # rest"
      and b1: "(if ?a = 0xF0 then 0x90 else 0x80) \<le> (of_char c1 :: nat)"
        "(of_char c1 :: nat) \<le> (if ?a = 0xF4 then 0x8F else 0xBF)"
      and b2: "0x80 \<le> (of_char c2 :: nat)" "(of_char c2 :: nat) \<le> 0xBF"
      and b3: "0x80 \<le> (of_char c3 :: nat)" "(of_char c3 :: nat) \<le> 0xBF"
      and r: "r = (?a mod 8) * 262144 + (of_char c1 mod 64) * 4096
                  + (of_char c2 mod 64) * 64 + of_char c3 mod 64"
      and n: "n = 4"
      by (cases cs; cases "tl cs"; cases "tl (tl cs)") (auto split: if_splits)
    have e: "EncodeRune r = [c, c1, c2, c3]"
      unfolding r using enc4 [of ?a "of_char c1" "of_char c2" "of_char c3"] four u b1 b2 b3
      by simp
    have again: "\<And>t. DecodeRune (c # c1 # c2 # c3 # t) = (r, n)"
      using DecodeRune_4 [OF four u] b1 b2 b3 r n by (auto split: if_splits)
    from cs n e again show ?thesis by simp
  qed
qed

lemma DecodeRune_take4: "DecodeRune (take 4 s) = DecodeRune s"
proof (cases s)
  case Nil
  then show ?thesis by simp
next
  case (Cons c cs)
  let ?a = "of_char c :: nat"
  have t: "take 4 (c # cs) = c # take 3 cs" by (simp add: numeral_eq_Suc)
  consider (ascii) "?a < 0x80" | (bad) "0x80 \<le> ?a" "?a < 0xC2 \<or> 0xF4 < ?a"
    | (two) "0xC2 \<le> ?a" "?a < 0xE0" | (three) "0xE0 \<le> ?a" "?a < 0xF0"
    | (four) "0xF0 \<le> ?a" "?a \<le> 0xF4"
    by linarith
  then have "DecodeRune (c # take 3 cs) = DecodeRune (c # cs)"
  proof cases
    case ascii
    then show ?thesis by (simp add: DecodeRune_ascii)
  next
    case bad
    then show ?thesis by (simp add: DecodeRune_bad_lead)
  next
    case two
    then show ?thesis
      by (cases cs) (simp_all add: DecodeRune_2 numeral_eq_Suc)
  next
    case three
    then show ?thesis
      by (cases cs; cases "tl cs") (simp_all add: DecodeRune_3 numeral_eq_Suc)
  next
    case four
    then show ?thesis
      by (cases cs; cases "tl cs"; cases "tl (tl cs)") (simp_all add: DecodeRune_4 numeral_eq_Suc)
  qed
  with Cons t show ?thesis by simp
qed

declare scanString.simps [simp del]

subsection \<open>Strings written and read back\<close>

lemma prepend_Some [simp]: "prepend out (Some (t, rest)) = Some (out @ t, rest)"
  by (simp add: prepend_def)

lemma scanString_quote: "scanString (CHR 0x22 # t) = Some ([], t)"
  by (simp add: scanString.simps)

lemma scanString_plain:
  "c \<noteq> CHR 0x22 \<Longrightarrow> c \<noteq> CHR 0x5C \<Longrightarrow> 0x20 \<le> (of_char c :: nat) \<Longrightarrow> (of_char c :: nat) < 0x80 \<Longrightarrow>
     scanString (c # t) = prepend [c] (scanString t)"
  by (simp add: scanString.simps)

lemma scanString_multi:
  "0x80 \<le> (of_char c :: nat) \<Longrightarrow>
     scanString (c # t) =
       (case DecodeRune (c # t) of (rr, n) \<Rightarrow> prepend (EncodeRune rr) (scanString (drop (n - 1) t)))"
  by (auto simp: scanString.simps)

lemma scanString_u:
  "getu4 es = Some rr \<Longrightarrow> \<not> isSurrogate rr \<Longrightarrow>
     scanString (CHR 0x5C # CHR ''u'' # es) = prepend (EncodeRune rr) (scanString (drop 4 es))"
  by (simp add: scanString.simps)

lemma hexVal_hexDigit: "k < 16 \<Longrightarrow> hexVal (hexDigit k) = Some k"
proof -
  assume "k < 16"
  then consider "k = 0" | "k = 1" | "k = 2" | "k = 3" | "k = 4" | "k = 5" | "k = 6" | "k = 7"
    | "k = 8" | "k = 9" | "k = 10" | "k = 11" | "k = 12" | "k = 13" | "k = 14" | "k = 15"
    by atomize_elim arith
  then show ?thesis
    by cases (simp_all add: hexDigit_def hexVal_def)
qed

lemma getu4_00:
  assumes "(b::nat) < 0x80"
  shows "getu4 (CHR ''0'' # CHR ''0'' # hexDigit (b div 16) # hexDigit (b mod 16) # t) = Some b"
proof -
  have h0: "hexVal (CHR ''0'') = Some 0" by (simp add: hexVal_def)
  have h1: "hexVal (hexDigit (b div 16)) = Some (b div 16)"
    using assms by (intro hexVal_hexDigit) simp
  have h2: "hexVal (hexDigit (b mod 16)) = Some (b mod 16)"
    by (intro hexVal_hexDigit) simp
  show ?thesis by (simp add: getu4_def h0 h1 h2)
qed

lemma scanString_escapeByte:
  assumes lt: "(of_char c :: nat) < 0x80" and ns: "\<not> htmlSafe (of_char c)"
  shows "scanString (escapeByte c @ t) = prepend [c] (scanString t)"
proof -
  consider (q) "c = CHR 0x5C \<or> c = CHR 0x22"
    | (b) "c = CHR 0x08" | (f) "c = CHR 0x0C" | (n) "c = CHR 0x0A" | (r) "c = CHR 0x0D"
    | (t) "c = CHR 0x09"
    | (u) "c \<noteq> CHR 0x5C" "c \<noteq> CHR 0x22" "c \<noteq> CHR 0x08" "c \<noteq> CHR 0x0C" "c \<noteq> CHR 0x0A"
          "c \<noteq> CHR 0x0D" "c \<noteq> CHR 0x09"
    by blast
  then show ?thesis
  proof cases
    case q
    then show ?thesis by (auto simp: escapeByte_def scanString.simps)
  next
    case b
    then show ?thesis by (simp add: escapeByte_def scanString.simps)
  next
    case f
    then show ?thesis by (simp add: escapeByte_def scanString.simps)
  next
    case n
    then show ?thesis by (simp add: escapeByte_def scanString.simps)
  next
    case r
    then show ?thesis by (simp add: escapeByte_def scanString.simps)
  next
    case t
    then show ?thesis by (simp add: escapeByte_def scanString.simps)
  next
    case u
    let ?b = "of_char c :: nat"
    have e: "escapeByte c = [CHR 0x5C, CHR ''u'', CHR ''0'', CHR ''0'',
                hexDigit (?b div 16), hexDigit (?b mod 16)]"
      using u by (simp add: escapeByte_def)
    have g: "getu4 (CHR ''0'' # CHR ''0'' # hexDigit (?b div 16) # hexDigit (?b mod 16) # t)
               = Some ?b"
      by (rule getu4_00 [OF lt])
    have s: "\<not> isSurrogate ?b" using lt by (simp add: isSurrogate_def)
    have enc: "EncodeRune ?b = [c]" using lt by (simp add: EncodeRune_def)
    show ?thesis
      unfolding e using scanString_u [OF g s] enc by simp
  qed
qed

lemma scanString_fffd:
  "scanString (CHR 0x5C # CHR ''u'' # CHR ''f'' # CHR ''f'' # CHR ''f'' # CHR ''d'' # t)
     = prepend (EncodeRune RuneError) (scanString t)"
proof -
  have g: "getu4 (CHR ''f'' # CHR ''f'' # CHR ''f'' # CHR ''d'' # t) = Some RuneError"
    by (simp add: getu4_def hexVal_def RuneError_def)
  have s: "\<not> isSurrogate RuneError" by (simp add: isSurrogate_def RuneError_def)
  from scanString_u [OF g s] show ?thesis by simp
qed

lemma scanString_202x:
  assumes "r = 0x2028 \<or> r = 0x2029"
  shows "scanString (CHR 0x5C # CHR ''u'' # CHR ''2'' # CHR ''0'' # CHR ''2'' # hexDigit (r mod 16) # t)
     = prepend (EncodeRune r) (scanString t)"
proof -
  have g: "getu4 (CHR ''2'' # CHR ''0'' # CHR ''2'' # hexDigit (r mod 16) # t) = Some r"
    using assms by (auto simp: getu4_def hexVal_def hexDigit_def)
  have s: "\<not> isSurrogate r" using assms by (auto simp: isSurrogate_def)
  from scanString_u [OF g s] show ?thesis by simp
qed

lemma htmlSafe_plain:
  assumes "htmlSafe (of_char c)"
  shows "c \<noteq> CHR 0x22 \<and> c \<noteq> CHR 0x5C \<and> 0x20 \<le> (of_char c :: nat) \<and> (of_char c :: nat) < 0x80"
  using assms by (auto simp: htmlSafe_def)

lemma appendString_scan:
  "scanString (appendString s @ CHR 0x22 # rest) = Some (coerceUTF8 s, rest)"
proof (induction s rule: length_induct)
  case (1 s)
  show ?case
  proof (cases s)
    case Nil
    then show ?thesis by (simp add: scanString_quote)
  next
    case (Cons c cs)
    have ih: "\<And>u. length u \<le> length cs \<Longrightarrow>
                scanString (appendString u @ CHR 0x22 # rest) = Some (coerceUTF8 u, rest)"
      using 1 Cons by simp
    show ?thesis
    proof (cases "(of_char c :: nat) < 0x80")
      case ascii: True
      show ?thesis
      proof (cases "htmlSafe (of_char c)")
        case True
        from htmlSafe_plain [OF True] ih [of cs] ascii True Cons show ?thesis
          by (simp add: scanString_plain)
      next
        case False
        from scanString_escapeByte [OF ascii False] ih [of cs] ascii False Cons show ?thesis
          by simp
      qed
    next
      case multi: False
      then have hi: "0x80 \<le> (of_char c :: nat)" by simp
      obtain r n where dec: "DecodeRune (c # cs) = (r, n)" by (cases "DecodeRune (c # cs)")
      have dec4: "DecodeRune (c # take 3 cs) = (r, n)"
        using DecodeRune_take4 [of "c # cs"] dec by simp
      show ?thesis
      proof (cases "r = RuneError \<and> n = 1")
        case True
        with multi dec dec4 ih [of cs] Cons show ?thesis
          by (simp add: scanString_fffd)
      next
        case ok: False
        from DecodeRune_valid [OF hi dec ok] have n2: "2 \<le> n" and nl: "n \<le> length (c # cs)"
          and enc: "EncodeRune r = take n (c # cs)"
          and again: "\<And>t. DecodeRune (take n (c # cs) @ t) = (r, n)"
          by simp_all
        let ?tail = "drop (n - 1) cs"
        have len: "length ?tail \<le> length cs" by simp
        have co: "coerceUTF8 (c # cs) = take n (c # cs) @ coerceUTF8 ?tail"
          using multi dec ok by auto
        show ?thesis
        proof (cases "r = 0x2028 \<or> r = 0x2029")
          case True
          have ap: "appendString (c # cs) =
                     [CHR 0x5C, CHR ''u'', CHR ''2'', CHR ''0'', CHR ''2'', hexDigit (r mod 16)]
                       @ appendString ?tail"
            using multi dec4 ok True by auto
          show ?thesis
            unfolding Cons ap co using scanString_202x [OF True] ih [OF len] enc by simp
        next
          case False
          have ap: "appendString (c # cs) = take n (c # cs) @ appendString ?tail"
            using multi dec4 ok False by auto
          have tk: "take n (c # cs) = c # take (n - 1) cs"
            using n2 by (cases n) simp_all
          have ltk: "length (take (n - 1) cs) = n - 1" using nl n2 by simp
          have d: "DecodeRune (c # take (n - 1) cs @ appendString ?tail @ CHR 0x22 # rest) = (r, n)"
            using again [of "appendString ?tail @ CHR 0x22 # rest"] tk by simp
          have "scanString (c # take (n - 1) cs @ appendString ?tail @ CHR 0x22 # rest)
                  = prepend (EncodeRune r) (scanString (appendString ?tail @ CHR 0x22 # rest))"
            using scanString_multi [OF hi, of "take (n - 1) cs @ appendString ?tail @ CHR 0x22 # rest"]
              d ltk by simp
          then show ?thesis
            unfolding Cons ap co using ih [OF len] enc tk by simp
        qed
      qed
    qed
  qed
qed

lemma validUTF8_coerce: "validUTF8 s \<Longrightarrow> coerceUTF8 s = s"
proof (induction s rule: length_induct)
  case (1 s)
  show ?case
  proof (cases s)
    case Nil
    then show ?thesis by simp
  next
    case (Cons c cs)
    show ?thesis
    proof (cases "(of_char c :: nat) < 0x80")
      case True
      with 1 Cons show ?thesis by simp
    next
      case False
      then have hi: "0x80 \<le> (of_char c :: nat)" by simp
      obtain r n where dec: "DecodeRune (c # cs) = (r, n)" by (cases "DecodeRune (c # cs)")
      from 1(2) Cons False dec have ok: "\<not> (r = RuneError \<and> n = 1)"
        and v: "validUTF8 (drop (n - 1) cs)" by simp_all
      from DecodeRune_valid [OF hi dec ok] have n2: "2 \<le> n" by simp
      have "coerceUTF8 (drop (n - 1) cs) = drop (n - 1) cs"
        using 1(1) Cons v by simp
      moreover have "take n (c # cs) @ drop (n - 1) cs = c # cs"
        using n2 by (cases n) simp_all
      ultimately show ?thesis using Cons False dec ok by auto
    qed
  qed
qed

subsection \<open>Decimal text\<close>

lemma digitChar_props:
  assumes "k < 10"
  shows "isDigit (digitChar k)" "digitVal (digitChar k) = k" "(digitChar k = CHR ''0'') = (k = 0)"
proof -
  have v: "(of_char (digitChar k) :: nat) = 48 + k"
    using assms by (simp add: digitChar_def)
  show "isDigit (digitChar k)" using assms by (simp add: isDigit_def v)
  show "digitVal (digitChar k) = k" by (simp add: digitVal_def v)
  have "(of_char (CHR ''0'') :: nat) = 48" by simp
  then have "(digitChar k = CHR ''0'') = ((of_char (digitChar k) :: nat) = 48)"
    by (metis of_char_eq_iff)
  then show "(digitChar k = CHR ''0'') = (k = 0)" by (simp add: v)
qed

lemma formatBits_digits: "formatBits n \<noteq> [] \<and> list_all isDigit (formatBits n)"
proof (induction n rule: formatBits.induct)
  case (1 n)
  show ?case
  proof (cases "n < 10")
    case True
    then show ?thesis by (subst formatBits.simps, subst formatBits.simps) (simp add: digitChar_props)
  next
    case False
    have "isDigit (digitChar (n mod 10))" by (rule digitChar_props) simp
    with False 1 show ?thesis by (subst formatBits.simps, subst formatBits.simps) simp
  qed
qed

lemma decValue_snoc: "decValue (xs @ [d]) = decValue xs * 10 + digitVal d"
  by (simp add: decValue_def)

lemma decValue_formatBits: "decValue (formatBits n) = n"
proof (induction n rule: formatBits.induct)
  case (1 n)
  show ?case
  proof (cases "n < 10")
    case True
    then show ?thesis
      by (subst formatBits.simps) (simp add: decValue_def digitChar_props)
  next
    case False
    have "digitVal (digitChar (n mod 10)) = n mod 10" by (rule digitChar_props) simp
    with False 1 show ?thesis
      by (subst formatBits.simps) (simp add: decValue_snoc)
  qed
qed

lemma formatBits_leading: "0 < n \<Longrightarrow> hd (formatBits n) \<noteq> CHR ''0''"
proof (induction n rule: formatBits.induct)
  case (1 n)
  show ?case
  proof (cases "n < 10")
    case True
    with 1(2) show ?thesis
      by (subst formatBits.simps) (simp add: digitChar_props)
  next
    case False
    then have "0 < n div 10" by simp
    with 1(1) False have "hd (formatBits (n div 10)) \<noteq> CHR ''0''" by simp
    moreover have "formatBits (n div 10) \<noteq> []" by (simp add: formatBits_digits)
    ultimately show ?thesis using False
      by (subst formatBits.simps) simp
  qed
qed

lemma formatBits_zero: "formatBits 0 = ''0''"
  using digitChar_props(3) [of 0] by (subst formatBits.simps) simp

lemma takeWhile_stop: "list_all P xs \<Longrightarrow> \<not> P y \<Longrightarrow> takeWhile P (xs @ y # ys) = xs"
  by (induction xs) simp_all

lemma dropWhile_stop: "list_all P xs \<Longrightarrow> \<not> P y \<Longrightarrow> dropWhile P (xs @ y # ys) = y # ys"
  by (induction xs) simp_all

lemma brace_not_digit: "\<not> isDigit (CHR ''}'')"
  by (simp add: isDigit_def)

lemma scanNumber_formatBits:
  "scanNumber (formatBits n @ CHR ''}'' # t) = Some (formatBits n, CHR ''}'' # t)"
proof (cases "n = 0")
  case True
  then show ?thesis
    by (simp add: formatBits_zero scanNumber_def scanFrac_def scanExp_def)
next
  case False
  obtain c cs where f: "formatBits n = c # cs"
    using formatBits_digits [of n] by (cases "formatBits n") auto
  from formatBits_digits [of n] f have dc: "isDigit c" and dcs: "list_all isDigit cs" by simp_all
  from formatBits_leading [of n] False f have nz: "c \<noteq> CHR ''0''" by simp
  from dc have nm: "c \<noteq> CHR ''-''" by (auto simp: isDigit_def)
  show ?thesis
    unfolding f using dc nz nm takeWhile_stop [OF dcs brace_not_digit, of t]
      dropWhile_stop [OF dcs brace_not_digit, of t]
    by (simp add: scanNumber_def scanFrac_def scanExp_def)
qed

lemma scanNumber_minus_formatBits:
  "scanNumber (CHR ''-'' # formatBits n @ CHR ''}'' # t)
     = Some (CHR ''-'' # formatBits n, CHR ''}'' # t)"
proof (cases "n = 0")
  case True
  then show ?thesis
    by (simp add: formatBits_zero scanNumber_def scanFrac_def scanExp_def)
next
  case False
  obtain c cs where f: "formatBits n = c # cs"
    using formatBits_digits [of n] by (cases "formatBits n") auto
  from formatBits_digits [of n] f have dc: "isDigit c" and dcs: "list_all isDigit cs" by simp_all
  from formatBits_leading [of n] False f have nz: "c \<noteq> CHR ''0''" by simp
  show ?thesis
    unfolding f using dc nz takeWhile_stop [OF dcs brace_not_digit, of t]
      dropWhile_stop [OF dcs brace_not_digit, of t]
    by (simp add: scanNumber_def scanFrac_def scanExp_def)
qed

lemma scanNumber_FormatInt:
  "scanNumber (FormatInt i @ CHR ''}'' # t) = Some (FormatInt i, CHR ''}'' # t)"
  by (simp add: FormatInt_def scanNumber_formatBits scanNumber_minus_formatBits)

lemma FormatInt_head:
  "\<exists>c cs. FormatInt i = c # cs \<and> (c = CHR ''-'' \<or> isDigit c)"
proof (cases "sint i < 0")
  case True
  then show ?thesis by (simp add: FormatInt_def)
next
  case False
  obtain c cs where f: "formatBits (nat (sint i)) = c # cs"
    using formatBits_digits [of "nat (sint i)"] by (cases "formatBits (nat (sint i))") auto
  with formatBits_digits [of "nat (sint i)"] have "isDigit c" by simp
  with False f show ?thesis by (simp add: FormatInt_def)
qed

lemma Int64_FormatInt: "Int64 (FormatInt i) = Inr i"
proof -
  have range: "- 9223372036854775808 \<le> sint i \<and> sint i < 9223372036854775808"
    using sint_ge [of i] sint_lt [of i] by simp
  have sd: "signedDigits (FormatInt i)"
  proof (cases "sint i < 0")
    case True
    then show ?thesis by (simp add: FormatInt_def signedDigits_def formatBits_digits)
  next
    case False
    obtain c cs where f: "formatBits (nat (sint i)) = c # cs"
      using formatBits_digits [of "nat (sint i)"] by (cases "formatBits (nat (sint i))") auto
    from formatBits_digits [of "nat (sint i)"] f have "isDigit c" "list_all isDigit cs" by simp_all
    moreover from this have "c \<noteq> CHR ''+''" "c \<noteq> CHR ''-''" by (auto simp: isDigit_def)
    ultimately show ?thesis using False f by (simp add: FormatInt_def signedDigits_def)
  qed
  have lv: "literalValue (FormatInt i) = sint i"
  proof (cases "sint i < 0")
    case True
    then show ?thesis by (simp add: FormatInt_def literalValue_def decValue_formatBits)
  next
    case False
    obtain c cs where f: "formatBits (nat (sint i)) = c # cs"
      using formatBits_digits [of "nat (sint i)"] by (cases "formatBits (nat (sint i))") auto
    from formatBits_digits [of "nat (sint i)"] f have "isDigit c" by simp
    then have "c \<noteq> CHR ''+''" "c \<noteq> CHR ''-''" by (auto simp: isDigit_def)
    moreover have "decValue (c # cs) = nat (sint i)"
      using decValue_formatBits [of "nat (sint i)"] f by simp
    ultimately show ?thesis using False f by (simp add: FormatInt_def literalValue_def)
  qed
  from ParseInt_signedDigits [OF sd] range lv show ?thesis by (simp add: Int64_def)
qed

subsection \<open>Encoding\<close>

lemma marshalLoop_map:
  "\<forall>s\<in>set steps. isVariant s \<Longrightarrow>
     marshalLoop pos steps acc = Inr (acc @ map specRecord steps)"
proof (induction steps arbitrary: pos acc)
  case Nil
  then show ?case by simp
next
  case (Cons s steps)
  then have v: "isVariant s" and rest: "\<forall>s\<in>set steps. isVariant s" by simp_all
  from v Cons.IH [OF rest] show ?case by (cases s) simp_all
qed

lemma those_map_Some: "(\<And>x. x \<in> set xs \<Longrightarrow> f x = Some (g x)) \<Longrightarrow> those (map f xs) = Some (map g xs)"
  by (induction xs) simp_all

lemma encodeString_kinds:
  \<open>encodeString ''body'' = ''"body"''\<close>
  \<open>encodeString ''header'' = ''"header"''\<close>
  \<open>encodeString ''url_param'' = ''"url_param"''\<close>
  \<open>encodeString ''array_index'' = ''"array_index"''\<close>
  \<open>encodeString ''object_property'' = ''"object_property"''\<close>
  \<open>encodeString ''string_index'' = ''"string_index"''\<close>
  by (simp_all add: encodeString_def htmlSafe_def)

lemma encodeGenericStep_spec:
  "isVariant s \<Longrightarrow> encodeGenericStep (specRecord s) = Some (specRecordText s)"
  by (cases s) (simp_all add: encodeGenericStep_def joinWith_def encodeString_kinds)

lemma Marshal_spec:
  assumes "\<forall>s\<in>set steps. isVariant s"
  shows "Marshal (map specRecord steps)
           = Some (''['' @ joinWith '','' (map specRecordText steps) @ '']'')"
proof -
  have "those (map encodeGenericStep (map specRecord steps)) = Some (map specRecordText steps)"
    unfolding map_map comp_def
    by (rule those_map_Some) (use assms encodeGenericStep_spec in auto)
  then show ?thesis by (simp add: Marshal_def)
qed

lemma isValidNumber_formatBits: "scanNumber (formatBits n) = Some (formatBits n, [])"
proof (cases "n = 0")
  case True
  then show ?thesis
    by (simp add: formatBits_zero scanNumber_def scanFrac_def scanExp_def)
next
  case False
  obtain c cs where f: "formatBits n = c # cs"
    using formatBits_digits [of n] by (cases "formatBits n") auto
  from formatBits_digits [of n] f have dc: "isDigit c" and dcs: "list_all isDigit cs" by simp_all
  from formatBits_leading [of n] False f have nz: "c \<noteq> CHR ''0''" by simp
  from dcs have tw: "takeWhile isDigit cs = cs" "dropWhile isDigit cs = []"
    by (simp_all add: list_all_iff)
  from dc have nm: "c \<noteq> CHR ''-''" by (auto simp: isDigit_def)
  show ?thesis
    unfolding f using dc nz nm
    by (simp add: scanNumber_def scanFrac_def scanExp_def tw)
qed

lemma isValidNumber_minus_formatBits:
  "scanNumber (CHR ''-'' # formatBits n) = Some (CHR ''-'' # formatBits n, [])"
proof (cases "n = 0")
  case True
  then show ?thesis
    by (simp add: formatBits_zero scanNumber_def scanFrac_def scanExp_def)
next
  case False
  obtain c cs where f: "formatBits n = c # cs"
    using formatBits_digits [of n] by (cases "formatBits n") auto
  from formatBits_digits [of n] f have dc: "isDigit c" and dcs: "list_all isDigit cs" by simp_all
  from formatBits_leading [of n] False f have nz: "c \<noteq> CHR ''0''" by simp
  from dcs have tw: "takeWhile isDigit cs = cs" "dropWhile isDigit cs = []"
    by (simp_all add: list_all_iff)
  show ?thesis
    unfolding f using dc nz
    by (simp add: scanNumber_def scanFrac_def scanExp_def tw)
qed

lemma isValidNumber_FormatInt: "isValidNumber (FormatInt i)"
  by (simp add: isValidNumber_def FormatInt_def isValidNumber_formatBits
      isValidNumber_minus_formatBits)

lemma formatBits_head_digit: "isDigit (hd (formatBits n))"
  using formatBits_digits [of n] by (cases "formatBits n") simp_all

lemma FormatInt_sign: "(hd (FormatInt i) = CHR ''-'') = (sint i < 0)"
proof (cases "sint i < 0")
  case True
  then show ?thesis by (simp add: FormatInt_def)
next
  case False
  from formatBits_head_digit [of "nat (sint i)"] have "hd (formatBits (nat (sint i))) \<noteq> CHR ''-''"
    by (auto simp: isDigit_def)
  with False show ?thesis by (simp add: FormatInt_def)
qed

lemma FormatInt_signedDigits: "signedDigits (FormatInt i)"
proof (cases "sint i < 0")
  case True
  then show ?thesis by (simp add: FormatInt_def signedDigits_def formatBits_digits)
next
  case False
  obtain c cs where f: "formatBits (nat (sint i)) = c # cs"
    using formatBits_digits [of "nat (sint i)"] by (cases "formatBits (nat (sint i))") auto
  from formatBits_digits [of "nat (sint i)"] f have "isDigit c" "list_all isDigit cs" by simp_all
  moreover from this have "c \<noteq> CHR ''+''" "c \<noteq> CHR ''-''" by (auto simp: isDigit_def)
  ultimately show ?thesis using False f by (simp add: FormatInt_def signedDigits_def)
qed

lemma FormatInt_literalValue: "literalValue (FormatInt i) = sint i"
proof (cases "sint i < 0")
  case True
  then show ?thesis by (simp add: FormatInt_def literalValue_def decValue_formatBits)
next
  case False
  obtain c cs where f: "formatBits (nat (sint i)) = c # cs"
    using formatBits_digits [of "nat (sint i)"] by (cases "formatBits (nat (sint i))") auto
  from formatBits_digits [of "nat (sint i)"] f have "isDigit c" by simp
  then have "c \<noteq> CHR ''+''" "c \<noteq> CHR ''-''" by (auto simp: isDigit_def)
  moreover have "decValue (c # cs) = nat (sint i)"
    using decValue_formatBits [of "nat (sint i)"] f by simp
  ultimately show ?thesis using False f by (simp add: FormatInt_def literalValue_def)
qed

lemma unquote_encodeString: "unquote (encodeString name) = Some (coerceUTF8 name)"
  using appendString_scan [of name "[]"] by (simp add: unquote_def encodeString_def)

lemma valueLiteral_member:
  \<open>valueLiteral kind (''{"kind":"'' @ kind @ ''","value":'' @ lit @ ''}'') = Some lit\<close>
  by (simp add: valueLiteral_def Let_def butlast_append)

lemma isStringMember_encodeString:
  \<open>isStringMember kind name (''{"kind":"'' @ kind @ ''","value":'' @ encodeString name @ ''}'')\<close>
  unfolding isStringMember_def valueLiteral_member by (simp add: unquote_encodeString)

lemma isIntMember_FormatInt:
  \<open>isIntMember kind i (''{"kind":"'' @ kind @ ''","value":'' @ FormatInt i @ ''}'')\<close>
  unfolding isIntMember_def valueLiteral_member
  by (simp add: isValidNumber_FormatInt FormatInt_signedDigits FormatInt_literalValue
      FormatInt_sign)

lemma isRecordOf_specRecordText: "isVariant s \<Longrightarrow> isRecordOf s (specRecordText s)"
proof (cases s)
  case BodyStep
  then show ?thesis by simp
next
  case (HeaderStep name)
  with isStringMember_encodeString [of "''header''" name] show ?thesis by simp
next
  case (URLParamStep name)
  with isStringMember_encodeString [of "''url_param''" name] show ?thesis by simp
next
  case (ArrayIndexStep i)
  with isIntMember_FormatInt [of "''array_index''" i] show ?thesis by simp
next
  case (ObjectPropertyStep name)
  with isStringMember_encodeString [of "''object_property''" name] show ?thesis by simp
next
  case (StringIndexStep i)
  with isIntMember_FormatInt [of "''string_index''" i] show ?thesis by simp
next
  case (OtherStep t)
  assume "isVariant s"
  with OtherStep show ?thesis by simp
qed

lemma appendString_plain:
  "list_all (\<lambda>c. htmlSafe (of_char c)) name \<Longrightarrow> appendString name = name"
proof (induction name)
  case Nil
  then show ?case by simp
next
  case (Cons c cs)
  then have s: "htmlSafe (of_char c)" and r: "appendString cs = cs" by simp_all
  from htmlSafe_plain [OF s] have "(of_char c :: nat) < 0x80" by simp
  with s r show ?case by simp
qed

text \<open>
  Claim C2, as the code has it: for a sequence of the six variants the loop builds one record
  per step, in the order of the steps, with the kind and value of \<open>specRecord\<close>, and the
  text returned is the JSON array of one text per step, each the record of its step:
  \<open>{"kind":"body"}\<close> with no value member for a body step; for the three named steps the
  kind and a string literal that stands for the name, in which every byte that is not part of
  a valid UTF-8 encoding has become U+FFFD, so for the name itself when it is valid UTF-8, and
  which is the name between quotes when the name has printable ASCII only and none of
  the quote, the backslash, \<open>&\<close>, \<open><\<close> and \<open>>\<close>; for the two index steps the
  kind and the decimal literal whose value is the index.
\<close>

theorem one_record_per_step:
  assumes "\<forall>s\<in>set steps. isVariant s"
  shows "marshalLoop 0 steps [] = Inr (map specRecord steps)
     \<and> length (map specRecord steps) = length steps
     \<and> (\<forall>i<length steps. map specRecord steps ! i = specRecord (steps ! i))
     \<and> Marshal (map specRecord steps)
         = Some (''['' @ joinWith '','' (map specRecordText steps) @ '']'')
     \<and> MarshalJSON steps = Inr (''['' @ joinWith '','' (map specRecordText steps) @ '']'')
     \<and> (\<exists>texts. MarshalJSON steps = Inr (''['' @ joinWith '','' texts @ '']'')
           \<and> list_all2 isRecordOf steps texts)
     \<and> (\<forall>name. validUTF8 name \<longrightarrow> coerceUTF8 name = name)
     \<and> (\<forall>name. list_all (\<lambda>c. htmlSafe (of_char c)) name \<longrightarrow>
            encodeString name = [CHR 0x22] @ name @ [CHR 0x22])"
proof -
  have loop: "marshalLoop 0 steps [] = Inr (map specRecord steps)"
    using assms by (simp add: marshalLoop_map)
  have out: "MarshalJSON steps = Inr (''['' @ joinWith '','' (map specRecordText steps) @ '']'')"
    using assms by (simp add: marshalLoop_map Marshal_spec MarshalJSON_def)
  have each: "list_all2 isRecordOf steps (map specRecordText steps)"
    using assms by (simp add: list_all2_conv_all_nth isRecordOf_specRecordText)
  have ex: "\<exists>texts. MarshalJSON steps = Inr (''['' @ joinWith '','' texts @ '']'')
           \<and> list_all2 isRecordOf steps texts"
    using out each by blast
  have valid: "\<forall>name. validUTF8 name \<longrightarrow> coerceUTF8 name = name"
    by (simp add: validUTF8_coerce)
  have plain: "\<forall>name. list_all (\<lambda>c. htmlSafe (of_char c)) name \<longrightarrow>
            encodeString name = [CHR 0x22] @ name @ [CHR 0x22]"
    by (simp add: encodeString_def appendString_plain)
  from loop out ex valid plain Marshal_spec [OF assms] show ?thesis by simp
qed

theorem one_record_per_step_witness:
  \<open>list_all isVariant [BodyStep, HeaderStep ''a"b'', ObjectPropertyStep ''foo'', ArrayIndexStep (- 42)]
   \<and> marshalLoop 0 [BodyStep, HeaderStep ''a"b'', ObjectPropertyStep ''foo'', ArrayIndexStep (- 42)] []
       = Inr [\<lparr>Kind = ''body'', Value = None\<rparr>,
              \<lparr>Kind = ''header'', Value = Some (AString ''a"b'')\<rparr>,
              \<lparr>Kind = ''object_property'', Value = Some (AString ''foo'')\<rparr>,
              \<lparr>Kind = ''array_index'', Value = Some (AInt64 (- 42))\<rparr>]
   \<and> MarshalJSON [BodyStep, HeaderStep ''a"b'', ObjectPropertyStep ''foo'', ArrayIndexStep (- 42)]
       = Inr (''[{"kind":"body"},{"kind":"header","value":"a'' @ [CHR 0x5C]
              @ ''"b"},{"kind":"object_property","value":"foo"},{"kind":"array_index","value":-42}]'')
   \<and> (\<exists>texts. MarshalJSON [BodyStep, HeaderStep ''a"b'', ObjectPropertyStep ''foo'',
                   ArrayIndexStep (- 42)] = Inr (''['' @ joinWith '','' texts @ '']'')
          \<and> list_all2 isRecordOf [BodyStep, HeaderStep ''a"b'', ObjectPropertyStep ''foo'',
                   ArrayIndexStep (- 42)] texts)
   \<and> list_all (\<lambda>c. htmlSafe (of_char c)) ''foo''
   \<and> encodeString ''foo'' = ''"foo"''
   \<and> validUTF8 ''a"b'' \<and> coerceUTF8 ''a"b'' = ''a"b''\<close>
proof -
  let ?S = \<open>[BodyStep, HeaderStep ''a"b'', ObjectPropertyStep ''foo'', ArrayIndexStep (- 42)]\<close>
  have v: "\<forall>s\<in>set ?S. isVariant s" by simp
  have e: \<open>encodeString ''a"b'' = [CHR 0x22, CHR ''a'', CHR 0x5C, CHR 0x22, CHR ''b'', CHR 0x22]\<close>
    by (simp add: encodeString_def htmlSafe_def escapeByte_def)
  have g: \<open>encodeString ''foo'' = ''"foo"''\<close>
    by (simp add: encodeString_def htmlSafe_def)
  have f: "FormatInt (- 42) = ''-42''"
    using char_of_char [of "CHR ''4''", where ?'a = nat]
      char_of_char [of "CHR ''2''", where ?'a = nat]
    by (simp add: FormatInt_def formatBits.simps digitChar_def)
  have p: \<open>list_all (\<lambda>c. htmlSafe (of_char c)) ''foo''\<close> by (simp add: htmlSafe_def)
  have u: \<open>validUTF8 ''a"b''\<close> by simp
  note inst = one_record_per_step [OF v]
  from inst have c1: "marshalLoop 0 ?S [] = Inr (map specRecord ?S)" by blast
  from inst have c2: "MarshalJSON ?S = Inr (''['' @ joinWith '','' (map specRecordText ?S) @ '']'')"
    by blast
  from inst have c3: "\<exists>texts. MarshalJSON ?S = Inr (''['' @ joinWith '','' texts @ '']'')
          \<and> list_all2 isRecordOf ?S texts" by blast
  from inst u have c4: \<open>coerceUTF8 ''a"b'' = ''a"b''\<close> by blast
  from inst p have c5: \<open>encodeString ''foo'' = [CHR 0x22] @ ''foo'' @ [CHR 0x22]\<close> by blast
  have r1: "list_all isVariant ?S" by simp
  from c1 have r2: \<open>marshalLoop 0 ?S []
       = Inr [\<lparr>Kind = ''body'', Value = None\<rparr>,
              \<lparr>Kind = ''header'', Value = Some (AString ''a"b'')\<rparr>,
              \<lparr>Kind = ''object_property'', Value = Some (AString ''foo'')\<rparr>,
              \<lparr>Kind = ''array_index'', Value = Some (AInt64 (- 42))\<rparr>]\<close>
    by simp
  from c2 have r3: \<open>MarshalJSON ?S
       = Inr (''[{"kind":"body"},{"kind":"header","value":"a'' @ [CHR 0x5C]
              @ ''"b"},{"kind":"object_property","value":"foo"},{"kind":"array_index","value":-42}]'')\<close>
    by (simp add: joinWith_def e f g)
  from c5 have r5: \<open>encodeString ''foo'' = ''"foo"''\<close> by simp
  from r1 r2 r3 c3 p r5 u c4 show ?thesis by blast
qed

text \<open>
  Claim C2 as worded fails for a string payload that is not valid UTF-8: the value member
  written for the name \<open>0xFF\<close> is a literal that stands for U+FFFD, not for the name.
\<close>

theorem string_payload_coerced:
  \<open>MarshalJSON [HeaderStep [CHR 0xFF]]
     = Inr (''[{"kind":"header","value":"'' @ [CHR 0x5C] @ ''ufffd"}]'')
   \<and> valueLiteral ''header'' (''{"kind":"header","value":"'' @ [CHR 0x5C] @ ''ufffd"}'')
       = Some ([CHR 0x22, CHR 0x5C] @ ''ufffd"'')
   \<and> unquote ([CHR 0x22, CHR 0x5C] @ ''ufffd"'') = Some [CHR 0xEF, CHR 0xBF, CHR 0xBD]
   \<and> [CHR 0xEF, CHR 0xBF, CHR 0xBD] \<noteq> [CHR 0xFF]\<close>
proof -
  have v: "\<forall>s\<in>set [HeaderStep [CHR 0xFF]]. isVariant s" by simp
  have d: "DecodeRune [CHR 0xFF] = (RuneError, 1)"
    by (rule DecodeRune_bad_lead) simp_all
  have e: "EncodeRune RuneError = [CHR 0xEF, CHR 0xBF, CHR 0xBD]"
    using char_of_char [of "CHR 0xEF", where ?'a = nat] char_of_char [of "CHR 0xBF", where ?'a = nat]
      char_of_char [of "CHR 0xBD", where ?'a = nat]
    by (simp add: EncodeRune_def RuneError_def)
  have a: \<open>appendString [CHR 0xFF] = [CHR 0x5C] @ ''ufffd''\<close> by (simp add: d)
  have c: "coerceUTF8 [CHR 0xFF] = [CHR 0xEF, CHR 0xBF, CHR 0xBD]" by (simp add: d e)
  have m: \<open>MarshalJSON [HeaderStep [CHR 0xFF]]
     = Inr (''[{"kind":"header","value":"'' @ [CHR 0x5C] @ ''ufffd"}]'')\<close>
    using marshalLoop_map [OF v, of 0 "[]"] Marshal_spec [OF v]
    by (simp add: MarshalJSON_def joinWith_def encodeString_def d)
  have l: \<open>valueLiteral ''header'' (''{"kind":"header","value":"'' @ [CHR 0x5C] @ ''ufffd"}'')
       = Some ([CHR 0x22, CHR 0x5C] @ ''ufffd"'')\<close>
    using valueLiteral_member [of "''header''" \<open>[CHR 0x22, CHR 0x5C] @ ''ufffd"''\<close>] by simp
  have q: \<open>unquote ([CHR 0x22, CHR 0x5C] @ ''ufffd"'') = Some [CHR 0xEF, CHR 0xBF, CHR 0xBD]\<close>
    using unquote_encodeString [of "[CHR 0xFF]"] by (simp add: encodeString_def d e)
  from m l q show ?thesis by simp
qed

subsection \<open>Parsing what the encoder wrote\<close>

lemma skipSpace_nonspace: "\<not> isSpace c \<Longrightarrow> skipSpace (c # t) = c # t"
  by (simp add: skipSpace_def)

lemma parseValue_string:
  "parseValue d (CHR 0x22 # appendString s @ CHR 0x22 # t) = Some (JString (coerceUTF8 s), t)"
  by (subst parseValue.simps)
    (simp add: skipSpace_nonspace isSpace_def appendString_scan)

lemma parseValue_encodeString:
  "parseValue d (encodeString s @ t) = Some (JString (coerceUTF8 s), t)"
  using parseValue_string [of d s t] by (simp add: encodeString_def)

lemma parseValue_FormatInt:
  "parseValue d (FormatInt i @ CHR ''}'' # t) = Some (JNumber (FormatInt i), CHR ''}'' # t)"
proof -
  from FormatInt_head [of i] obtain c cs where f: "FormatInt i = c # cs"
    and c: "c = CHR ''-'' \<or> isDigit c" by blast
  from c have ns: "\<not> isSpace c" "c \<noteq> CHR ''{''" "c \<noteq> CHR ''[''" "c \<noteq> CHR 0x22"
    by (auto simp: isSpace_def isDigit_def)
  have sn: "scanNumber (c # cs @ CHR ''}'' # t) = Some (c # cs, CHR ''}'' # t)"
    using scanNumber_FormatInt [of i t] f by simp
  show ?thesis
    unfolding f using ns c sn
    by (subst parseValue.simps) (auto simp: skipSpace_nonspace)
qed

lemma parseMembers_last:
  assumes pv: "parseValue d (vt @ CHR ''}'' # t) = Some (v, CHR ''}'' # t)" and ne: "vt \<noteq> []"
  shows "parseMembers d (CHR 0x22 # appendString k @ CHR 0x22 # CHR '':'' # vt @ CHR ''}'' # t)
           = Some ([(coerceUTF8 k, v)], t)"
  using pv ne
  by (subst parseMembers.simps)
    (simp add: skipSpace_nonspace isSpace_def appendString_scan)

lemma parseMembers_more:
  assumes pv: "parseValue d (vt @ CHR '','' # t) = Some (v, CHR '','' # t)" and ne: "vt \<noteq> []"
    and rest: "parseMembers d t = Some (ms, t')"
  shows "parseMembers d (CHR 0x22 # appendString k @ CHR 0x22 # CHR '':'' # vt @ CHR '','' # t)
           = Some ((coerceUTF8 k, v) # ms, t')"
  using pv ne rest
  by (subst parseMembers.simps)
    (simp add: skipSpace_nonspace isSpace_def appendString_scan)

lemma parseValue_object:
  assumes d: "d \<noteq> 0" and ms: "parseMembers (d - 1) (CHR 0x22 # mt) = Some (ms, t)"
  shows "parseValue d (CHR ''{'' # CHR 0x22 # mt) = Some (JObject ms, t)"
  using d ms
  by (subst parseValue.simps) (simp add: skipSpace_nonspace isSpace_def)

lemma parseElems_last:
  assumes pv: "parseValue d (et @ CHR '']'' # t) = Some (v, CHR '']'' # t)" and ne: "et \<noteq> []"
  shows "parseElems d (et @ CHR '']'' # t) = Some ([v], t)"
  using pv ne
  by (subst parseElems.simps) (simp add: skipSpace_nonspace isSpace_def)

lemma parseElems_more:
  assumes pv: "parseValue d (et @ CHR '','' # t) = Some (v, CHR '','' # t)" and ne: "et \<noteq> []"
    and rest: "parseElems d t = Some (vs, t')"
  shows "parseElems d (et @ CHR '','' # t) = Some (v # vs, t')"
  using pv ne rest
  by (subst parseElems.simps) (simp add: skipSpace_nonspace isSpace_def)

lemma plain_names:
  "appendString ''kind'' = ''kind''" "coerceUTF8 ''kind'' = ''kind''"
  "appendString ''value'' = ''value''" "coerceUTF8 ''value'' = ''value''"
  "appendString ''body'' = ''body''" "coerceUTF8 ''body'' = ''body''"
  "appendString ''header'' = ''header''" "coerceUTF8 ''header'' = ''header''"
  "appendString ''url_param'' = ''url_param''" "coerceUTF8 ''url_param'' = ''url_param''"
  "appendString ''array_index'' = ''array_index''" "coerceUTF8 ''array_index'' = ''array_index''"
  "appendString ''object_property'' = ''object_property''"
  "coerceUTF8 ''object_property'' = ''object_property''"
  "appendString ''string_index'' = ''string_index''"
  "coerceUTF8 ''string_index'' = ''string_index''"
  by (simp_all add: htmlSafe_def)

lemma parse_kind_only:
  assumes d: "d \<noteq> 0" and k: "appendString k' = k"
  shows "parseValue d (CHR ''{'' # CHR 0x22 # ''kind'' @ CHR 0x22 # CHR '':'' #
            (CHR 0x22 # k @ [CHR 0x22]) @ CHR ''}'' # t)
         = Some (JObject [(''kind'', JString (coerceUTF8 k'))], t)"
proof -
  have pv: "parseValue (d - 1) ((CHR 0x22 # k @ [CHR 0x22]) @ CHR ''}'' # t)
              = Some (JString (coerceUTF8 k'), CHR ''}'' # t)"
    using parseValue_string [of "d - 1" k' "CHR ''}'' # t"] k by simp
  have "parseMembers (d - 1) (CHR 0x22 # appendString ''kind'' @ CHR 0x22 # CHR '':'' #
            (CHR 0x22 # k @ [CHR 0x22]) @ CHR ''}'' # t)
          = Some ([(coerceUTF8 ''kind'', JString (coerceUTF8 k'))], t)"
    by (rule parseMembers_last [OF pv]) simp
  then have "parseMembers (d - 1) (CHR 0x22 # ''kind'' @ CHR 0x22 # CHR '':'' #
            (CHR 0x22 # k @ [CHR 0x22]) @ CHR ''}'' # t)
          = Some ([(''kind'', JString (coerceUTF8 k'))], t)"
    by (simp only: plain_names)
  from parseValue_object [OF d this] show ?thesis by simp
qed

lemma parse_kind_value:
  assumes d: "d \<noteq> 0" and k: "appendString k' = k"
    and pv: "parseValue (d - 1) (vt @ CHR ''}'' # t) = Some (v, CHR ''}'' # t)" and ne: "vt \<noteq> []"
  shows "parseValue d (CHR ''{'' # CHR 0x22 # ''kind'' @ CHR 0x22 # CHR '':'' #
            (CHR 0x22 # k @ [CHR 0x22]) @ CHR '','' #
            CHR 0x22 # ''value'' @ CHR 0x22 # CHR '':'' # vt @ CHR ''}'' # t)
         = Some (JObject [(''kind'', JString (coerceUTF8 k')), (''value'', v)], t)"
proof -
  let ?rest = "CHR 0x22 # ''value'' @ CHR 0x22 # CHR '':'' # vt @ CHR ''}'' # t"
  have m2: "parseMembers (d - 1) (CHR 0x22 # appendString ''value'' @ CHR 0x22 # CHR '':'' # vt @ CHR ''}'' # t)
              = Some ([(coerceUTF8 ''value'', v)], t)"
    by (rule parseMembers_last [OF pv ne])
  then have m2': "parseMembers (d - 1) ?rest = Some ([(''value'', v)], t)"
    by (simp only: plain_names)
  have pk: "parseValue (d - 1) ((CHR 0x22 # k @ [CHR 0x22]) @ CHR '','' # ?rest)
              = Some (JString (coerceUTF8 k'), CHR '','' # ?rest)"
    using parseValue_string [of "d - 1" k' "CHR '','' # ?rest"] k by simp
  have "parseMembers (d - 1) (CHR 0x22 # appendString ''kind'' @ CHR 0x22 # CHR '':'' #
            (CHR 0x22 # k @ [CHR 0x22]) @ CHR '','' # ?rest)
          = Some ((coerceUTF8 ''kind'', JString (coerceUTF8 k')) # [(''value'', v)], t)"
    by (rule parseMembers_more [OF pk _ m2']) simp
  then have "parseMembers (d - 1) (CHR 0x22 # ''kind'' @ CHR 0x22 # CHR '':'' #
            (CHR 0x22 # k @ [CHR 0x22]) @ CHR '','' # ?rest)
          = Some ([(''kind'', JString (coerceUTF8 k')), (''value'', v)], t)"
    by (simp only: plain_names)
  from parseValue_object [OF d this] show ?thesis by simp
qed

lemma parse_record:
  assumes d: "d \<noteq> 0" and v: "isVariant s"
  shows "parseValue d (specRecordText s @ t) = Some (recordTree s, t)"
proof (cases s)
  case BodyStep
  from parse_kind_only [OF d plain_names(5), of t] BodyStep show ?thesis
    by (simp add: plain_names)
next
  case (HeaderStep name)
  have pv: "parseValue (d - 1) (encodeString name @ CHR ''}'' # t)
              = Some (JString (coerceUTF8 name), CHR ''}'' # t)"
    by (rule parseValue_encodeString)
  have ne: "encodeString name \<noteq> []" by (simp add: encodeString_def)
  from parse_kind_value [OF d plain_names(7) pv ne] HeaderStep show ?thesis
    by (simp add: plain_names)
next
  case (URLParamStep name)
  have pv: "parseValue (d - 1) (encodeString name @ CHR ''}'' # t)
              = Some (JString (coerceUTF8 name), CHR ''}'' # t)"
    by (rule parseValue_encodeString)
  have ne: "encodeString name \<noteq> []" by (simp add: encodeString_def)
  from parse_kind_value [OF d plain_names(9) pv ne] URLParamStep show ?thesis
    by (simp add: plain_names)
next
  case (ArrayIndexStep i)
  have pv: "parseValue (d - 1) (FormatInt i @ CHR ''}'' # t)
              = Some (JNumber (FormatInt i), CHR ''}'' # t)"
    by (rule parseValue_FormatInt)
  have ne: "FormatInt i \<noteq> []" using FormatInt_head [of i] by auto
  from parse_kind_value [OF d plain_names(11) pv ne] ArrayIndexStep show ?thesis
    by (simp add: plain_names)
next
  case (ObjectPropertyStep name)
  have pv: "parseValue (d - 1) (encodeString name @ CHR ''}'' # t)
              = Some (JString (coerceUTF8 name), CHR ''}'' # t)"
    by (rule parseValue_encodeString)
  have ne: "encodeString name \<noteq> []" by (simp add: encodeString_def)
  from parse_kind_value [OF d plain_names(13) pv ne] ObjectPropertyStep show ?thesis
    by (simp add: plain_names)
next
  case (StringIndexStep i)
  have pv: "parseValue (d - 1) (FormatInt i @ CHR ''}'' # t)
              = Some (JNumber (FormatInt i), CHR ''}'' # t)"
    by (rule parseValue_FormatInt)
  have ne: "FormatInt i \<noteq> []" using FormatInt_head [of i] by auto
  from parse_kind_value [OF d plain_names(15) pv ne] StringIndexStep show ?thesis
    by (simp add: plain_names)
next
  case (OtherStep x)
  with v show ?thesis by simp
qed

lemma joinWith_Cons2: "joinWith sep (x # y # r) = x @ sep @ joinWith sep (y # r)"
  by (simp add: joinWith_def)

lemma joinWith_single: "joinWith sep [x] = x"
  by (simp add: joinWith_def)

lemma specRecordText_head: "isVariant s \<Longrightarrow> \<exists>r. specRecordText s = CHR ''{'' # r"
  by (cases s) simp_all

lemma parse_records:
  assumes d: "d \<noteq> 0"
  shows "\<forall>s\<in>set (x # xs). isVariant s \<Longrightarrow>
     parseElems d (joinWith '','' (map specRecordText (x # xs)) @ CHR '']'' # t)
       = Some (map recordTree (x # xs), t)"
proof (induction xs arbitrary: x)
  case Nil
  then have v: "isVariant x" by simp
  from specRecordText_head [OF v] have ne: "specRecordText x \<noteq> []" by auto
  from parseElems_last [OF parse_record [OF d v] ne] show ?case
    by (simp add: joinWith_single)
next
  case (Cons y ys)
  then have v: "isVariant x" and rest: "\<forall>s\<in>set (y # ys). isVariant s" by simp_all
  from specRecordText_head [OF v] have ne: "specRecordText x \<noteq> []" by auto
  let ?t = "joinWith '','' (map specRecordText (y # ys)) @ CHR '']'' # t"
  from Cons.IH [OF rest] have ih: "parseElems d ?t = Some (map recordTree (y # ys), t)" .
  from parseElems_more [OF parse_record [OF d v] ne ih] show ?case
    by (simp add: joinWith_Cons2)
qed

lemma parse_marshalled:
  assumes v: "\<forall>s\<in>set steps. isVariant s"
  shows "parseValue maxNestingDepth (''['' @ joinWith '','' (map specRecordText steps) @ '']'')
           = Some (JArray (map recordTree steps), [])"
proof (cases steps)
  case Nil
  then show ?thesis
    by (subst parseValue.simps)
      (simp add: joinWith_def skipSpace_nonspace isSpace_def maxNestingDepth_def)
next
  case (Cons x xs)
  have d: "maxNestingDepth - 1 \<noteq> 0" by (simp add: maxNestingDepth_def)
  from v Cons have vx: "isVariant x" by simp
  from specRecordText_head [OF vx] obtain r where r: "specRecordText x = CHR ''{'' # r" by blast
  obtain body where body: "joinWith '','' (map specRecordText (x # xs)) @ '']'' = CHR ''{'' # body"
    using r by (cases xs) (simp_all add: joinWith_def)
  from parse_records [OF d, of x xs "[]"] v Cons
  have pe: "parseElems (maxNestingDepth - 1) (CHR ''{'' # body) = Some (map recordTree (x # xs), [])"
    using body by simp
  have "parseValue maxNestingDepth (CHR ''['' # CHR ''{'' # body)
          = Some (JArray (map recordTree (x # xs)), [])"
    using pe
    by (subst parseValue.simps)
      (simp add: skipSpace_nonspace isSpace_def maxNestingDepth_def)
  with body Cons show ?thesis by simp
qed

subsection \<open>Storing and decoding what was parsed\<close>

lemma foldName_fields: "foldName ''kind'' = ''KIND''" "foldName ''value'' = ''VALUE''"
  by code_simp+

lemma storeElem_record:
  "isVariant s \<Longrightarrow> storeElem (gs, None) (recordTree s) = (gs @ [decodedRecord s], None)"
  by (cases s)
    (simp_all add: storeElem_def storeMember_def foldName_fields del: foldName.simps)

lemma foldl_storeElem:
  "\<forall>s\<in>set steps. isVariant s \<Longrightarrow>
     foldl storeElem (gs, None) (map recordTree steps) = (gs @ map decodedRecord steps, None)"
  by (induction steps arbitrary: gs) (simp_all add: storeElem_record)

lemma Decode_marshalled:
  assumes v: "\<forall>s\<in>set steps. isVariant s"
  shows "Decode (''['' @ joinWith '','' (map specRecordText steps) @ '']'')
           = Inr (map decodedRecord steps)"
  using parse_marshalled [OF v] foldl_storeElem [OF v, of "[]"]
  by (simp add: Decode_def storeSlice_def)

lemma switchKind_decodedRecord:
  "isVariant s \<Longrightarrow> switchKind p (decodedRecord s) = Inr (coerceStep s)"
  by (cases s) (simp_all add: switchKind_def Int64_FormatInt)

lemma unmarshalLoop_decoded:
  "\<forall>s\<in>set steps. isVariant s \<Longrightarrow>
     unmarshalLoop pos (map decodedRecord steps) acc = Inr (acc @ map coerceStep steps)"
  by (induction steps arbitrary: pos acc) (simp_all add: switchKind_decodedRecord AddStep_def)

lemma coerceStep_valid: "validPayload s \<Longrightarrow> coerceStep s = s"
  by (cases s) (simp_all add: validUTF8_coerce)

lemma round_trip_coerced:
  assumes v: "\<forall>s\<in>set S. isVariant s"
  shows "MarshalJSON S = Inr (''['' @ joinWith '','' (map specRecordText S) @ '']'')
     \<and> UnmarshalJSON dst (''['' @ joinWith '','' (map specRecordText S) @ '']'')
          = (map coerceStep S, None)"
  using Decode_marshalled [OF v] unmarshalLoop_decoded [OF v, of 0 "[]"]
  by (simp add: MarshalJSON_def marshalLoop_map [OF v] Marshal_spec [OF v] UnmarshalJSON_def)

text \<open>
  Claim C1, as the code has it: for a sequence of the six variants the encoder returns a text,
  and decoding that text succeeds with the same steps in the same order, the integer
  payloads unchanged and in each string payload every byte that is not part of a valid
  UTF-8 encoding replaced by U+FFFD. When the string payloads are valid UTF-8 the decoded
  sequence is the encoded one.
\<close>

theorem round_trip:
  assumes "\<forall>s\<in>set S. isVariant s"
  shows "\<exists>t. MarshalJSON S = Inr t
           \<and> UnmarshalJSON dst t = (map coerceStep S, None)
           \<and> ((\<forall>s\<in>set S. validPayload s) \<longrightarrow> UnmarshalJSON dst t = (S, None))"
proof -
  let ?t = "''['' @ joinWith '','' (map specRecordText S) @ '']''"
  from round_trip_coerced [OF assms, of dst]
  have m: "MarshalJSON S = Inr ?t" and u: "UnmarshalJSON dst ?t = (map coerceStep S, None)"
    by simp_all
  have "(\<forall>s\<in>set S. validPayload s) \<longrightarrow> map coerceStep S = S"
    by (simp add: coerceStep_valid map_idI)
  with m u show ?thesis by auto
qed

theorem round_trip_witness:
  "list_all isVariant [BodyStep, HeaderStep ''X-Trace'', URLParamStep ''id'',
       ObjectPropertyStep ''foo'', ArrayIndexStep 3, StringIndexStep (- 1)]
   \<and> list_all validPayload [BodyStep, HeaderStep ''X-Trace'', URLParamStep ''id'',
       ObjectPropertyStep ''foo'', ArrayIndexStep 3, StringIndexStep (- 1)]
   \<and> (\<exists>t. MarshalJSON [BodyStep, HeaderStep ''X-Trace'', URLParamStep ''id'',
               ObjectPropertyStep ''foo'', ArrayIndexStep 3, StringIndexStep (- 1)] = Inr t
          \<and> UnmarshalJSON [] t
               = ([BodyStep, HeaderStep ''X-Trace'', URLParamStep ''id'', ObjectPropertyStep ''foo'',
                   ArrayIndexStep 3, StringIndexStep (- 1)], None))"
proof -
  let ?S = "[BodyStep, HeaderStep ''X-Trace'', URLParamStep ''id'', ObjectPropertyStep ''foo'',
             ArrayIndexStep 3, StringIndexStep (- 1)]"
  have v: "\<forall>s\<in>set ?S. isVariant s" by simp
  have p: "\<forall>s\<in>set ?S. validPayload s" by simp
  from round_trip [OF v, of "[]"] p v show ?thesis by (simp add: list_all_iff)
qed

text \<open>
  Claim C1 as worded fails for a string payload that is not valid UTF-8: the encoder writes
  the escape for U+FFFD in place of the byte \<open>0xFF\<close>, and the decoder returns U+FFFD.
\<close>

theorem round_trip_invalid_utf8:
  \<open>MarshalJSON [HeaderStep [CHR 0xFF]]
     = Inr (''[{"kind":"header","value":"'' @ [CHR 0x5C] @ ''ufffd"}]'')
   \<and> UnmarshalJSON [] (''[{"kind":"header","value":"'' @ [CHR 0x5C] @ ''ufffd"}]'')
       = ([HeaderStep [CHR 0xEF, CHR 0xBF, CHR 0xBD]], None)
   \<and> [HeaderStep [CHR 0xEF, CHR 0xBF, CHR 0xBD]] \<noteq> [HeaderStep [CHR 0xFF]]\<close>
proof -
  have v: "\<forall>s\<in>set [HeaderStep [CHR 0xFF]]. isVariant s" by simp
  have d: "DecodeRune [CHR 0xFF] = (RuneError, 1)"
    by (rule DecodeRune_bad_lead) simp_all
  have e: "EncodeRune RuneError = [CHR 0xEF, CHR 0xBF, CHR 0xBD]"
    using char_of_char [of "CHR 0xEF", where ?'a = nat] char_of_char [of "CHR 0xBF", where ?'a = nat]
      char_of_char [of "CHR 0xBD", where ?'a = nat]
    by (simp add: EncodeRune_def RuneError_def)
  have t: \<open>''['' @ joinWith '','' (map specRecordText [HeaderStep [CHR 0xFF]]) @ '']''
             = ''[{"kind":"header","value":"'' @ [CHR 0x5C] @ ''ufffd"}]''\<close>
    by (simp add: joinWith_def encodeString_def d)
  from round_trip_coerced [OF v, of "[]"] show ?thesis
    unfolding t by (simp add: d e)
qed

subsection \<open>The scanner consumes what it reads\<close>

lemma prepend_rest: "prepend out x = Some (t, r) \<Longrightarrow> \<exists>t'. x = Some (t', r)"
  by (auto simp: prepend_def split: option.splits)

lemma scanString_shorter: "scanString s = Some (t, r) \<Longrightarrow> length r < length s"
proof (induction s arbitrary: t r rule: length_induct)
  case (1 s)
  show ?case
  proof (cases s)
    case Nil
    with 1(2) show ?thesis by (simp add: scanString.simps)
  next
    case (Cons c cs)
    have ih: "\<And>u t' r'. length u \<le> length cs \<Longrightarrow> scanString u = Some (t', r') \<Longrightarrow> length r' < length u"
      using 1(1) Cons by simp
    have step: "\<And>out u. prepend out (scanString u) = Some (t, r) \<Longrightarrow>
                  length u \<le> length cs \<longrightarrow> length r < length u"
    proof
      fix out u assume p: "prepend out (scanString u) = Some (t, r)" and u: "length u \<le> length cs"
      from prepend_rest [OF p] obtain t' where "scanString u = Some (t', r)" by blast
      from ih [OF u this] show "length r < length u" .
    qed
    from 1(2) Cons show ?thesis
      by (auto simp: scanString.simps split: if_splits list.splits option.splits prod.splits
          dest!: step)
  qed
qed

lemma scanExp_shorter: "scanExp acc s = Some (t, r) \<Longrightarrow> length r \<le> length s"
  by (auto simp: scanExp_def Let_def split: list.splits if_splits
      intro: le_trans [OF length_dropWhile_le])

lemma scanFrac_shorter: "scanFrac acc s = Some (t, r) \<Longrightarrow> length r \<le> length s"
  by (auto simp: scanFrac_def split: list.splits if_splits dest!: scanExp_shorter
      intro: le_trans [OF _ length_dropWhile_le [THEN le_trans]])

lemma scanNumber_shorter:
  assumes "scanNumber s = Some (t, r)"
  shows "length r < length s"
proof -
  define sg where "sg = (if s \<noteq> [] \<and> hd s = CHR ''-'' then [hd s] else [])"
  define s1 where "s1 = drop (length sg) s"
  have l1: "length s1 \<le> length s" by (simp add: s1_def)
  from assms obtain c cs where s1: "s1 = c # cs"
    by (cases s1) (auto simp: scanNumber_def Let_def sg_def s1_def)
  have dw: "length (dropWhile isDigit cs) \<le> length cs" by (rule length_dropWhile_le)
  from assms s1 have "\<exists>acc u. scanFrac acc u = Some (t, r) \<and> length u \<le> length cs"
    using dw
    by (auto simp: scanNumber_def Let_def sg_def s1_def split: if_splits)
  then obtain acc u where "scanFrac acc u = Some (t, r)" and u: "length u \<le> length cs" by blast
  from scanFrac_shorter [OF this(1)] u have "length r \<le> length cs" by simp
  with s1 l1 show ?thesis by simp
qed

lemma parse_shorter_aux:
  "\<forall>d. (\<forall>v r. parseValue d s = Some (v, r) \<longrightarrow> length r < length s)
      \<and> (\<forall>vs r. parseElems d s = Some (vs, r) \<longrightarrow> length r < length s)
      \<and> (\<forall>ms r. parseMembers d s = Some (ms, r) \<longrightarrow> length r < length s)"
proof (induction s rule: length_induct)
  case (1 s)
  have ihE: "\<And>u d vs r. length u < length s \<Longrightarrow> parseElems d u = Some (vs, r) \<Longrightarrow> length r < length u"
    using 1 by blast
  have ihM: "\<And>u d ms r. length u < length s \<Longrightarrow> parseMembers d u = Some (ms, r) \<Longrightarrow> length r < length u"
    using 1 by blast
  show ?case
  proof (intro allI conjI impI)
    fix d v r assume p: "parseValue d s = Some (v, r)"
    obtain c cs where sk: "skipSpace s = c # cs"
      using p by (cases "skipSpace s") (auto simp: parseValue.simps [of d s])
    from skipSpace_Cons_length [OF sk] have lcs: "length cs < length s" .
    have lsk: "length (c # cs) \<le> length s" using length_skipSpace [of s] sk by simp
    consider (obj) "c = CHR ''{''" | (arr) "c = CHR ''[''" "c \<noteq> CHR ''{''"
      | (str) "c = CHR 0x22" "c \<noteq> CHR ''{''" "c \<noteq> CHR ''[''"
      | (num) "c = CHR ''-'' \<or> isDigit c" "c \<noteq> CHR ''{''" "c \<noteq> CHR ''[''" "c \<noteq> CHR 0x22"
      | (lit) "\<not> (c = CHR ''-'' \<or> isDigit c)" "c \<noteq> CHR ''{''" "c \<noteq> CHR ''[''" "c \<noteq> CHR 0x22"
      by blast
    then show "length r < length s"
    proof cases
      case obj
      with p sk have "(\<exists>c1 r0. skipSpace cs = c1 # r0 \<and> r = r0)
                      \<or> (\<exists>ms. parseMembers (d - 1) cs = Some (ms, r))"
        by (subst (asm) parseValue.simps)
          (auto split: if_splits list.splits option.splits)
      then show ?thesis
      proof
        assume "\<exists>c1 r0. skipSpace cs = c1 # r0 \<and> r = r0"
        then obtain c1 where "skipSpace cs = c1 # r" by blast
        from skipSpace_Cons_length [OF this] lcs show ?thesis by simp
      next
        assume "\<exists>ms. parseMembers (d - 1) cs = Some (ms, r)"
        then obtain ms where "parseMembers (d - 1) cs = Some (ms, r)" by blast
        from ihM [OF lcs this] lcs show ?thesis by simp
      qed
    next
      case arr
      with p sk have "(\<exists>c1 r0. skipSpace cs = c1 # r0 \<and> r = r0)
                      \<or> (\<exists>vs. parseElems (d - 1) cs = Some (vs, r))"
        by (subst (asm) parseValue.simps)
          (auto split: if_splits list.splits option.splits)
      then show ?thesis
      proof
        assume "\<exists>c1 r0. skipSpace cs = c1 # r0 \<and> r = r0"
        then obtain c1 where "skipSpace cs = c1 # r" by blast
        from skipSpace_Cons_length [OF this] lcs show ?thesis by simp
      next
        assume "\<exists>vs. parseElems (d - 1) cs = Some (vs, r)"
        then obtain vs where "parseElems (d - 1) cs = Some (vs, r)" by blast
        from ihE [OF lcs this] lcs show ?thesis by simp
      qed
    next
      case str
      with p sk have "\<exists>t. scanString cs = Some (t, r)"
        by (subst (asm) parseValue.simps) (auto split: option.splits)
      then obtain t where "scanString cs = Some (t, r)" by blast
      from scanString_shorter [OF this] lcs show ?thesis by simp
    next
      case num
      with p sk have "\<exists>t. scanNumber (c # cs) = Some (t, r)"
        by (subst (asm) parseValue.simps) (auto split: option.splits)
      then obtain t where "scanNumber (c # cs) = Some (t, r)" by blast
      from scanNumber_shorter [OF this] lsk show ?thesis by simp
    next
      case lit
      with p sk have "r = drop 3 cs \<or> r = drop 4 cs"
        by (subst (asm) parseValue.simps) (auto split: if_splits)
      with lcs show ?thesis by auto
    qed
  next
    fix d vs r assume p: "parseElems d s = Some (vs, r)"
    then obtain v r0 where pv: "parseValue d s = Some (v, r0)" and g: "length r0 < length s"
      by (subst (asm) parseElems.simps) (auto split: option.splits if_splits)
    from p pv g obtain c r1 where sk: "skipSpace r0 = c # r1"
      by (subst (asm) parseElems.simps) (auto split: list.splits)
    from skipSpace_Cons_length [OF sk] g have l1: "length r1 < length s" by simp
    from p pv g sk have "r = r1 \<or> (\<exists>vs'. parseElems d r1 = Some (vs', r))"
      by (subst (asm) parseElems.simps) (auto split: if_splits option.splits)
    then show "length r < length s"
    proof
      assume "r = r1"
      with l1 show ?thesis by simp
    next
      assume "\<exists>vs'. parseElems d r1 = Some (vs', r)"
      then obtain vs' where "parseElems d r1 = Some (vs', r)" by blast
      from ihE [OF l1 this] l1 show ?thesis by simp
    qed
  next
    fix d ms r assume p: "parseMembers d s = Some (ms, r)"
    then obtain q s1 where sk: "skipSpace s = q # s1"
      by (subst (asm) parseMembers.simps) (auto split: list.splits)
    from skipSpace_Cons_length [OF sk] have l1: "length s1 < length s" .
    from p sk obtain key s2 where ss: "scanString s1 = Some (key, s2)"
      by (subst (asm) parseMembers.simps) (auto split: if_splits option.splits)
    from scanString_shorter [OF ss] have l2: "length s2 < length s1" .
    from p sk ss obtain c s3 where sk2: "skipSpace s2 = c # s3"
      by (subst (asm) parseMembers.simps) (auto split: if_splits list.splits)
    from skipSpace_Cons_length [OF sk2] have l3: "length s3 < length s2" .
    from p sk ss sk2 obtain v r0 where pv: "parseValue d s3 = Some (v, r0)"
      and g: "length r0 < length s3"
      by (subst (asm) parseMembers.simps) (auto split: if_splits option.splits)
    from p sk ss sk2 pv g obtain c1 r1 where sk3: "skipSpace r0 = c1 # r1"
      by (subst (asm) parseMembers.simps) (auto split: if_splits list.splits)
    from skipSpace_Cons_length [OF sk3] g l3 l2 l1 have l4: "length r1 < length s" by simp
    from p sk ss sk2 pv g sk3 have "r = r1 \<or> (\<exists>ms'. parseMembers d r1 = Some (ms', r))"
      by (subst (asm) parseMembers.simps) (auto split: if_splits option.splits)
    then show "length r < length s"
    proof
      assume "r = r1"
      with l4 show ?thesis by simp
    next
      assume "\<exists>ms'. parseMembers d r1 = Some (ms', r)"
      then obtain ms' where "parseMembers d r1 = Some (ms', r)" by blast
      from ihM [OF l4 this] l4 show ?thesis by simp
    qed
  qed
qed

lemma parseValue_shorter: "parseValue d s = Some (v, r) \<Longrightarrow> length r < length s"
  using parse_shorter_aux [of s] by blast

text \<open>The length tests in \<open>parseElems\<close> and \<open>parseMembers\<close> never fail.\<close>

lemma parseElems_unguarded:
  "parseElems d s =
     (case parseValue d s of
        None \<Rightarrow> None
      | Some (v, r) \<Rightarrow>
          (case skipSpace r of
             [] \<Rightarrow> None
           | c # r1 \<Rightarrow>
               if c = CHR '','' then
                 (case parseElems d r1 of
                    None \<Rightarrow> None
                  | Some (vs, r2) \<Rightarrow> Some (v # vs, r2))
               else if c = CHR '']'' then Some ([v], r1)
               else None))"
  by (subst parseElems.simps) (auto split: option.splits dest: parseValue_shorter)

lemma parseMembers_unguarded:
  "parseMembers d s =
     (case skipSpace s of
        [] \<Rightarrow> None
      | q # s1 \<Rightarrow>
          if q = CHR 0x22 then
            (case scanString s1 of
               None \<Rightarrow> None
             | Some (key, s2) \<Rightarrow>
                 (case skipSpace s2 of
                    [] \<Rightarrow> None
                  | c # s3 \<Rightarrow>
                      if c = CHR '':'' then
                        (case parseValue d s3 of
                           None \<Rightarrow> None
                         | Some (v, r) \<Rightarrow>
                             (case skipSpace r of
                                [] \<Rightarrow> None
                              | c1 # r1 \<Rightarrow>
                                  if c1 = CHR '','' then
                                    (case parseMembers d r1 of
                                       None \<Rightarrow> None
                                     | Some (ms, r2) \<Rightarrow> Some ((key, v) # ms, r2))
                                  else if c1 = CHR ''}'' then Some ([(key, v)], r1)
                                  else None))
                      else None))
          else None)"
proof -
  have a: "\<And>s1 key s2. scanString s1 = Some (key, s2) \<Longrightarrow> length s2 \<le> length s1"
    using scanString_shorter by fastforce
  show ?thesis
    by (subst parseMembers.simps)
      (auto split: option.splits list.splits dest: parseValue_shorter a)
qed

end
